theory Spec2Isabelle
  imports Complex_Main
begin

section \<open>JavaScript numbers\<close>

text \<open>
  The ordinal axis computes with JavaScript numbers. They are modelled as exact reals
  extended with the values a computation of \<^verbatim>\<open>OrdinalAxis.ts\<close> can produce beside them:
  \<open>NaN\<close>, the two infinities (division by zero) and \<open>undefined\<close> (a read past the end of
  an array, an optional field that was never set). The operations of this section are
  exact on finite values; the rounding of double precision follows in the next section,
  and the functions whose behaviour depends on it are given with rounded operations too.
  The sign of zero is not modelled: zero counts as \<open>+0\<close>.
\<close>

datatype jsnum = Num real | NaN | PInf | NInf | Undefined

text \<open>\<open>undefined\<close> converts to \<open>NaN\<close> in arithmetic and in comparisons.\<close>

definition is_nan :: "jsnum \<Rightarrow> bool" where
  "is_nan a = (a = NaN \<or> a = Undefined)"

text \<open>Truthiness of a number: \<open>0\<close>, \<open>NaN\<close> and \<open>undefined\<close> are falsy.\<close>

definition falsy :: "jsnum \<Rightarrow> bool" where
  "falsy a = (a = Num 0 \<or> is_nan a)"

definition jinf :: "real \<Rightarrow> jsnum" where
  "jinf s = (if 0 < s then PInf else if s < 0 then NInf else NaN)"

fun jsign :: "jsnum \<Rightarrow> real" where
  "jsign (Num x) = sgn x"
| "jsign PInf = 1"
| "jsign NInf = - 1"
| "jsign NaN = 0"
| "jsign Undefined = 0"

definition jlt :: "jsnum \<Rightarrow> jsnum \<Rightarrow> bool" where
  "jlt a b =
     (case (a, b) of
        (Num x, Num y) \<Rightarrow> x < y
      | (Num x, PInf) \<Rightarrow> True
      | (NInf, Num y) \<Rightarrow> True
      | (NInf, PInf) \<Rightarrow> True
      | _ \<Rightarrow> False)"

definition jle :: "jsnum \<Rightarrow> jsnum \<Rightarrow> bool" where
  "jle a b = (jlt a b \<or> (a = b \<and> \<not> is_nan a))"

definition jgt :: "jsnum \<Rightarrow> jsnum \<Rightarrow> bool" where
  "jgt a b = jlt b a"

definition jge :: "jsnum \<Rightarrow> jsnum \<Rightarrow> bool" where
  "jge a b = jle b a"

definition jneg :: "jsnum \<Rightarrow> jsnum" where
  "jneg a = (case a of Num x \<Rightarrow> Num (- x) | PInf \<Rightarrow> NInf | NInf \<Rightarrow> PInf | _ \<Rightarrow> NaN)"

definition jadd :: "jsnum \<Rightarrow> jsnum \<Rightarrow> jsnum" where
  "jadd a b =
     (if is_nan a \<or> is_nan b then NaN
      else case (a, b) of
        (Num x, Num y) \<Rightarrow> Num (x + y)
      | (Num x, i) \<Rightarrow> i
      | (i, Num y) \<Rightarrow> i
      | (i, j) \<Rightarrow> if i = j then i else NaN)"

definition jsub :: "jsnum \<Rightarrow> jsnum \<Rightarrow> jsnum" where
  "jsub a b = jadd a (jneg b)"

definition jmul :: "jsnum \<Rightarrow> jsnum \<Rightarrow> jsnum" where
  "jmul a b =
     (if is_nan a \<or> is_nan b then NaN
      else case (a, b) of
        (Num x, Num y) \<Rightarrow> Num (x * y)
      | _ \<Rightarrow> jinf (jsign a * jsign b))"

definition jdiv :: "jsnum \<Rightarrow> jsnum \<Rightarrow> jsnum" where
  "jdiv a b =
     (if is_nan a \<or> is_nan b then NaN
      else case (a, b) of
        (Num x, Num y) \<Rightarrow> if y \<noteq> 0 then Num (x / y) else jinf (sgn x)
      | (Num x, i) \<Rightarrow> Num 0
      | (i, Num y) \<Rightarrow> jinf (jsign i * (if y < 0 then - 1 else 1))
      | _ \<Rightarrow> NaN)"

text \<open>\<^verbatim>\<open>Math.min\<close> and \<^verbatim>\<open>Math.max\<close> of two numbers: \<open>NaN\<close> if either is.\<close>

definition jmin :: "jsnum \<Rightarrow> jsnum \<Rightarrow> jsnum" where
  "jmin a b = (if is_nan a \<or> is_nan b then NaN else if jlt b a then b else a)"


text \<open>
  Reading \<^verbatim>\<open>a[i]\<close> from an \<^verbatim>\<open>Array<number>\<close>: the element inside the array, \<open>undefined\<close>
  outside of it.
\<close>

definition aget :: "real list \<Rightarrow> int \<Rightarrow> jsnum" where
  "aget xs i = (if 0 \<le> i \<and> i < int (length xs) then Num (xs ! nat i) else Undefined)"

section \<open>Double precision\<close>

text \<open>
  A JavaScript number is an IEEE 754 binary64 value, and an arithmetic operation returns
  the exact result rounded to the nearest such value, a tie going to the value with the
  even significand. \<open>to_double\<close> is that rounding of a real number. \<open>exponent x\<close> is the
  binary exponent of \<open>x\<close>, found by halving or doubling \<open>\<bar>x\<bar>\<close> and kept between \<open>-1022\<close>
  (below it the values are subnormal) and \<open>1023\<close>; the unit in the last place is
  \<open>2\<close> to the power \<open>exponent x - 52\<close>, and \<open>round_to_ulp\<close> rounds to a multiple of it; a
  rounded value beyond \<^verbatim>\<open>Number.MAX_VALUE\<close>, the largest finite double, is an infinity.
  The sign of zero is not modelled.
\<close>

definition MAX_VALUE :: real where
  "MAX_VALUE = (2 ^ 53 - 1) * 2 ^ 971"

definition pow2 :: "int \<Rightarrow> real" where
  "pow2 k = (if 0 \<le> k then 2 ^ nat k else 1 / 2 ^ nat (- k))"

function expo_up :: "real \<Rightarrow> int \<Rightarrow> int" where
  "expo_up x e = (if 2 \<le> x \<and> e < 1023 then expo_up (x / 2) (e + 1) else e)"
  by pat_completeness auto
termination
  by (relation "measure (\<lambda>(x, e). nat (1023 - e))") auto

function expo_down :: "real \<Rightarrow> int \<Rightarrow> int" where
  "expo_down x e = (if x < 1 \<and> - 1022 < e then expo_down (x * 2) (e - 1) else e)"
  by pat_completeness auto
termination
  by (relation "measure (\<lambda>(x, e). nat (e + 1022))") auto

declare expo_up.simps [simp del]
declare expo_down.simps [simp del]

definition exponent :: "real \<Rightarrow> int" where
  "exponent x = (if 1 \<le> \<bar>x\<bar> then expo_up \<bar>x\<bar> 0 else expo_down \<bar>x\<bar> 0)"

definition round_half_even :: "real \<Rightarrow> int" where
  "round_half_even x =
     (let f = \<lfloor>x\<rfloor>; r = x - real_of_int f
      in if r < 1 / 2 then f else if 1 / 2 < r then f + 1 else if even f then f else f + 1)"

definition round_to_ulp :: "real \<Rightarrow> real" where
  "round_to_ulp x =
     (let ulp = pow2 (exponent x - 52) in real_of_int (round_half_even (x / ulp)) * ulp)"

definition to_double :: "real \<Rightarrow> jsnum" where
  "to_double x =
     (let r = round_to_ulp x
      in if MAX_VALUE < r then PInf else if r < - MAX_VALUE then NInf else Num r)"

text \<open>
  The arithmetic operators of the source: the exact operation, then the rounding of a
  finite result.
\<close>

definition rnd :: "jsnum \<Rightarrow> jsnum" where
  "rnd a = (case a of Num x \<Rightarrow> to_double x | _ \<Rightarrow> a)"

definition dadd :: "jsnum \<Rightarrow> jsnum \<Rightarrow> jsnum" where
  "dadd a b = rnd (jadd a b)"

definition dsub :: "jsnum \<Rightarrow> jsnum \<Rightarrow> jsnum" where
  "dsub a b = rnd (jsub a b)"

definition dmul :: "jsnum \<Rightarrow> jsnum \<Rightarrow> jsnum" where
  "dmul a b = rnd (jmul a b)"

definition ddiv :: "jsnum \<Rightarrow> jsnum \<Rightarrow> jsnum" where
  "ddiv a b = rnd (jdiv a b)"

section \<open>Binary search\<close>

text \<open>
  \<^verbatim>\<open>Additions.findIndexOf\<close> (lines 1167-1193). The loop keeps \<open>start\<close> and \<open>end\<close>;
  \<^verbatim>\<open>Math.ceil((start + end) / 2)\<close> is the ceiling of the exact half.
\<close>

function findIndexOf_loop :: "real list \<Rightarrow> real \<Rightarrow> int \<Rightarrow> int \<Rightarrow> int" where
  "findIndexOf_loop sortedArray key start end' =
     (if start < end' then
        (let middle = \<lceil>real_of_int (start + end') / 2\<rceil> in
           if jle (aget sortedArray middle) (Num key)
           then findIndexOf_loop sortedArray key middle end'
           else findIndexOf_loop sortedArray key start (middle - 1))
      else start)"
  by pat_completeness auto
termination
proof (relation "measure (\<lambda>(sortedArray, key, start, end'). nat (end' - start))", goal_cases)
  case 1
  show ?case by simp
next
  case (2 sortedArray key start end' x)
  have "\<lceil>real_of_int (start + end') / real_of_int 2\<rceil> = - (- (start + end') div 2)"
    by (rule ceiling_divide_eq_div)
  with 2 show ?case by simp
next
  case (3 sortedArray key start end' x)
  have "\<lceil>real_of_int (start + end') / real_of_int 2\<rceil> = - (- (start + end') div 2)"
    by (rule ceiling_divide_eq_div)
  with 3 show ?case by simp
qed

declare findIndexOf_loop.simps [simp del]

definition findIndexOf :: "real list \<Rightarrow> real \<Rightarrow> bool \<Rightarrow> int" where
  "findIndexOf sortedArray key indirectSearch =
     (let start = findIndexOf_loop sortedArray key 0 (int (length sortedArray) - 1) in
        if aget sortedArray start = Num key then start
        else if \<not> indirectSearch then - 1 else start)"

section \<open>The axis state\<close>

text \<open>
  The overscroll option is a number or a string (\<^verbatim>\<open>number | string\<close>).
\<close>

datatype overscroll_spec = OvNumber jsnum | OvString string

text \<open>
  The fields of the axis and of its \<^verbatim>\<open>Additions\<close> object (\<^verbatim>\<open>axis.ordinal\<close>) that the
  translation and overscroll functions read. An optional number that is not set is
  \<open>Undefined\<close>. \<open>extendedPositions\<close> is the value of
  \<^verbatim>\<open>ordinal.getExtendedPositions && ordinal.getExtendedPositions()\<close>: \<open>None\<close> when the
  method is absent or returns \<open>undefined\<close>; the grouping and series code that fills the
  cache is outside this development.
\<close>

record ordinal_axis =
  positions :: "real list option"
  slope :: jsnum
  offset :: jsnum
  extendedPositions :: "real list option"
  overscrollPointsRange :: jsnum
  originalOrdinalRange :: jsnum
  dataMin :: jsnum
  dataMax :: jsnum
  len :: jsnum
  overscroll :: "overscroll_spec option"

section \<open>Value to index translation\<close>

text \<open>
  \<^verbatim>\<open>getIndexInArray\<close> (lines 491-501), in exact arithmetic, the setting in which the
  specification states the round trip through \<^verbatim>\<open>val2lin\<close> and \<^verbatim>\<open>index2val\<close>. The same
  functions with the rounding of doubles follow in the next section.
\<close>

definition getIndexInArray :: "real list \<Rightarrow> real \<Rightarrow> jsnum" where
  "getIndexInArray ordinalPositions val =
     (let index = findIndexOf ordinalPositions val True in
        if aget ordinalPositions index = Num val then Num (real_of_int index)
        else
          let percent =
                jdiv (jsub (Num val) (aget ordinalPositions index))
                     (jsub (aget ordinalPositions (index + 1)) (aget ordinalPositions index))
          in jadd (Num (real_of_int index)) percent)"

text \<open>
  The last statement of \<^verbatim>\<open>val2lin\<close> (lines 864-865):
  \<^verbatim>\<open>toIndex ? ordinalIndex : slope * (ordinalIndex || 0) + ordinal.offset\<close>.
\<close>

definition val2lin_result :: "ordinal_axis \<Rightarrow> jsnum \<Rightarrow> bool \<Rightarrow> jsnum \<Rightarrow> jsnum" where
  "val2lin_result axis slope' toIndex ordinalIndex =
     (if toIndex then ordinalIndex
      else jadd (jmul slope' (if falsy ordinalIndex then Num 0 else ordinalIndex)) (offset axis))"

text \<open>
  \<^verbatim>\<open>val2lin\<close> (lines 769-866). When \<open>ordinalPositions\<close> is empty, \<^verbatim>\<open>ordinalPositions[0]\<close>
  is \<open>undefined\<close>: the comparisons of \<^verbatim>\<open>getIndexInArray(extendedOrdinalPositions, undefined)\<close>
  all fail and its arithmetic yields \<open>NaN\<close>.
\<close>

definition val2lin :: "ordinal_axis \<Rightarrow> real \<Rightarrow> bool \<Rightarrow> jsnum" where
  "val2lin axis val toIndex =
     (case positions axis of
        None \<Rightarrow> Num val
      | Some ordinalPositions \<Rightarrow>
          let ordinalLength = int (length ordinalPositions) in
          if jle (aget ordinalPositions 0) (Num val) \<and>
             jge (aget ordinalPositions (ordinalLength - 1)) (Num val)
          then val2lin_result axis (slope axis) toIndex (getIndexInArray ordinalPositions val)
          else
            (case extendedPositions axis of
               None \<Rightarrow> Num val
             | Some extendedOrdinalPositions \<Rightarrow>
                 if extendedOrdinalPositions = [] then Num val
                 else
                   let length' = int (length extendedOrdinalPositions);
                       slope' =
                         (if falsy (slope axis)
                          then jdiv (jsub (aget extendedOrdinalPositions (length' - 1))
                                          (aget extendedOrdinalPositions 0))
                                    (Num (real_of_int length'))
                          else slope axis);
                       originalPositionsReference =
                         (case aget ordinalPositions 0 of
                            Num first \<Rightarrow> getIndexInArray extendedOrdinalPositions first
                          | _ \<Rightarrow> NaN)
                   in
                   if jge (Num val) (aget extendedOrdinalPositions 0) \<and>
                      jle (Num val) (aget extendedOrdinalPositions (length' - 1))
                   then val2lin_result axis slope' toIndex
                          (jsub (getIndexInArray extendedOrdinalPositions val)
                                originalPositionsReference)
                   else if \<not> toIndex then Num val
                   else if jlt (Num val) (aget extendedOrdinalPositions 0)
                   then
                     (let diff = jsub (aget extendedOrdinalPositions 0) (Num val);
                          approximateIndexOffset = jdiv diff slope'
                      in val2lin_result axis slope' toIndex
                           (jsub (jneg originalPositionsReference) approximateIndexOffset))
                   else
                     (let diff = jsub (Num val) (aget extendedOrdinalPositions (length' - 1));
                          approximateIndexOffset = jdiv diff slope'
                      in val2lin_result axis slope' toIndex
                           (jsub (jadd approximateIndexOffset (Num (real_of_int length')))
                                 originalPositionsReference))))"

section \<open>Value to index translation in double precision\<close>

text \<open>
  \<^verbatim>\<open>getIndexInArray\<close> (lines 491-501) and \<^verbatim>\<open>val2lin\<close> (lines 769-866) once more, now
  with every subtraction, division, multiplication and addition rounded to a double as
  the source computes it. The comparisons and the binary search need no rounding.
\<close>

definition getIndexInArray_double :: "real list \<Rightarrow> real \<Rightarrow> jsnum" where
  "getIndexInArray_double ordinalPositions val =
     (let index = findIndexOf ordinalPositions val True in
        if aget ordinalPositions index = Num val then Num (real_of_int index)
        else
          let percent =
                ddiv (dsub (Num val) (aget ordinalPositions index))
                     (dsub (aget ordinalPositions (index + 1)) (aget ordinalPositions index))
          in dadd (Num (real_of_int index)) percent)"

definition val2lin_result_double :: "ordinal_axis \<Rightarrow> jsnum \<Rightarrow> bool \<Rightarrow> jsnum \<Rightarrow> jsnum" where
  "val2lin_result_double axis slope' toIndex ordinalIndex =
     (if toIndex then ordinalIndex
      else dadd (dmul slope' (if falsy ordinalIndex then Num 0 else ordinalIndex)) (offset axis))"

definition val2lin_double :: "ordinal_axis \<Rightarrow> real \<Rightarrow> bool \<Rightarrow> jsnum" where
  "val2lin_double axis val toIndex =
     (case positions axis of
        None \<Rightarrow> Num val
      | Some ordinalPositions \<Rightarrow>
          let ordinalLength = int (length ordinalPositions) in
          if jle (aget ordinalPositions 0) (Num val) \<and>
             jge (aget ordinalPositions (ordinalLength - 1)) (Num val)
          then val2lin_result_double axis (slope axis) toIndex
                 (getIndexInArray_double ordinalPositions val)
          else
            (case extendedPositions axis of
               None \<Rightarrow> Num val
             | Some extendedOrdinalPositions \<Rightarrow>
                 if extendedOrdinalPositions = [] then Num val
                 else
                   let length' = int (length extendedOrdinalPositions);
                       slope' =
                         (if falsy (slope axis)
                          then ddiv (dsub (aget extendedOrdinalPositions (length' - 1))
                                          (aget extendedOrdinalPositions 0))
                                    (Num (real_of_int length'))
                          else slope axis);
                       originalPositionsReference =
                         (case aget ordinalPositions 0 of
                            Num first \<Rightarrow> getIndexInArray_double extendedOrdinalPositions first
                          | _ \<Rightarrow> NaN)
                   in
                   if jge (Num val) (aget extendedOrdinalPositions 0) \<and>
                      jle (Num val) (aget extendedOrdinalPositions (length' - 1))
                   then val2lin_result_double axis slope' toIndex
                          (dsub (getIndexInArray_double extendedOrdinalPositions val)
                                originalPositionsReference)
                   else if \<not> toIndex then Num val
                   else if jlt (Num val) (aget extendedOrdinalPositions 0)
                   then
                     (let diff = dsub (aget extendedOrdinalPositions 0) (Num val);
                          approximateIndexOffset = ddiv diff slope'
                      in val2lin_result_double axis slope' toIndex
                           (dsub (jneg originalPositionsReference) approximateIndexOffset))
                   else
                     (let diff = dsub (Num val) (aget extendedOrdinalPositions (length' - 1));
                          approximateIndexOffset = ddiv diff slope'
                      in val2lin_result_double axis slope' toIndex
                           (dsub (dadd approximateIndexOffset (Num (real_of_int length')))
                                 originalPositionsReference))))"

section \<open>Index to value translation\<close>

text \<open>
  \<^verbatim>\<open>index2val\<close> (lines 408-441). In the third branch \<open>index\<close> is a finite number
  between \<open>0\<close> and the last index, or \<open>NaN\<close>; for \<open>NaN\<close> the read
  \<^verbatim>\<open>ordinalPositions[NaN]\<close> is \<open>undefined\<close> and \<open>index\<close> itself is returned.
\<close>

definition index2val :: "ordinal_axis \<Rightarrow> jsnum \<Rightarrow> jsnum" where
  "index2val axis index =
     (case positions axis of
        None \<Rightarrow> index
      | Some ordinalPositions \<Rightarrow>
          let i = int (length ordinalPositions) - 1 in
          if jlt index (Num 0) then aget ordinalPositions 0
          else if jgt index (Num (real_of_int i)) then aget ordinalPositions i
          else
            (case index of
               Num x \<Rightarrow>
                 let i = \<lfloor>x\<rfloor>;
                     distance = x - real_of_int i
                 in
                 if aget ordinalPositions i \<noteq> Undefined
                 then jadd (aget ordinalPositions i)
                        (if distance \<noteq> 0
                         then jmul (Num distance)
                                (jsub (aget ordinalPositions (i + 1)) (aget ordinalPositions i))
                         else Num 0)
                 else index
             | _ \<Rightarrow> index))"

section \<open>Overscroll\<close>

text \<open>
  \<^verbatim>\<open>parseInt(s, 10)\<close>: leading white space is skipped, an optional sign is read, then
  the longest run of decimal digits; without a digit the result is \<open>NaN\<close>.
\<close>

definition is_space :: "char \<Rightarrow> bool" where
  "is_space c = (c \<in> set [CHR 0x20, CHR 0x09, CHR 0x0A, CHR 0x0B, CHR 0x0C, CHR 0x0D])"

definition is_digit :: "char \<Rightarrow> bool" where
  "is_digit c = (c \<in> set ''0123456789'')"

definition digit_val :: "char \<Rightarrow> nat" where
  "digit_val c = of_char c - 48"

definition parseInt :: "string \<Rightarrow> jsnum" where
  "parseInt s =
     (let s1 = dropWhile is_space s;
          negative = (s1 \<noteq> [] \<and> hd s1 = CHR ''-'');
          s2 = (if s1 \<noteq> [] \<and> (hd s1 = CHR ''-'' \<or> hd s1 = CHR ''+'') then tl s1 else s1);
          ds = takeWhile is_digit s2;
          n = foldl (\<lambda>a c. 10 * a + digit_val c) 0 ds
      in if ds = [] then NaN
         else if negative then Num (- real n) else Num (real n))"

text \<open>The regular expression tests \<^verbatim>\<open>/%$/.test(s)\<close> and \<^verbatim>\<open>/px/.test(s)\<close>.\<close>

definition ends_with_percent :: "string \<Rightarrow> bool" where
  "ends_with_percent s = (s \<noteq> [] \<and> last s = CHR ''%'')"

fun contains_px :: "string \<Rightarrow> bool" where
  "contains_px (a # b # r) = ((a = CHR ''p'' \<and> b = CHR ''x'') \<or> contains_px (b # r))"
| "contains_px _ = False"

text \<open>
  Modelled from the spec: the helpers \<^verbatim>\<open>defined\<close> and \<^verbatim>\<open>pick\<close> of \<^verbatim>\<open>Utilities.ts\<close>, which
  is not among the sources. \<^verbatim>\<open>defined\<close> holds of every value but \<open>undefined\<close>;
  \<^verbatim>\<open>pick\<close> returns its first defined argument (``the cached original ordinal range if
  known'').
\<close>

definition defined :: "jsnum \<Rightarrow> bool" where
  "defined a = (a \<noteq> Undefined)"

definition pick :: "jsnum \<Rightarrow> jsnum \<Rightarrow> jsnum" where
  "pick a b = (if defined a then a else b)"

text \<open>The local function \<^verbatim>\<open>calculateOverscroll\<close> of \<^verbatim>\<open>convertOverscroll\<close> (lines 1555-1565).\<close>

definition calculateOverscroll :: "ordinal_axis \<Rightarrow> jsnum \<Rightarrow> jsnum" where
  "calculateOverscroll axis overscrollPercentage =
     jmul (pick (originalOrdinalRange axis)
             (if defined (dataMax axis) \<and> defined (dataMin axis)
              then jsub (dataMax axis) (dataMin axis) else Num 0))
          overscrollPercentage"

text \<open>
  \<^verbatim>\<open>Additions.convertOverscroll\<close> (lines 1552-1596). The parameter defaults to \<open>0\<close> when
  the option is not set.
\<close>

definition convertOverscroll :: "ordinal_axis \<Rightarrow> overscroll_spec option \<Rightarrow> jsnum" where
  "convertOverscroll axis overscroll' =
     (case (case overscroll' of None \<Rightarrow> OvNumber (Num 0) | Some ov \<Rightarrow> ov) of
        OvString s \<Rightarrow>
          let overscrollValue = parseInt s in
          if ends_with_percent s
          then calculateOverscroll axis (jdiv overscrollValue (Num 100))
          else if contains_px s
          then
            (let limitedOverscrollValue = jmin overscrollValue (jmul (len axis) (Num (9 / 10)));
                 pixelToPercent = jdiv limitedOverscrollValue (len axis)
             in calculateOverscroll axis (jdiv pixelToPercent (jsub (Num 1) pixelToPercent)))
          else Num 0
      | OvNumber n \<Rightarrow> n)"






section \<open>Tick segments\<close>

text \<open>The variables of the segment scan of \<^verbatim>\<open>getTimeTicks\<close> (lines 205-213).\<close>

record tick_scan =
  start :: nat
  segmentPositions :: "real list option"
  segmentStarts :: "nat list"
  groupPositions :: "real list"
  lastGroupPosition :: real

definition initial_scan :: tick_scan where
  "initial_scan =
     \<lparr>start = 0, segmentPositions = None, segmentStarts = [], groupPositions = [],
      lastGroupPosition = - MAX_VALUE\<rparr>"

text \<open>
  Lines 246-277, run when the scan closes the range of positions that ends at index
  \<open>end\<close>. \<open>timeTicks a b\<close> stands for
  \<^verbatim>\<open>time.getTimeTicks(normalizedInterval, a, b, startOfWeek)\<close>, the time-tick collaborator,
  which is a parameter here. A segment is formed only when the last position of the range
  exceeds \<open>lastGroupPosition\<close> (line 249): then the collaborator is asked for the ticks of
  the range, the inner \<^verbatim>\<open>while\<close> loop shifts the ticks that are not above
  \<open>lastGroupPosition\<close> off the front, and the segment's offset in \<open>groupPositions\<close> is
  pushed onto \<open>segmentStarts\<close>. In either case the next range starts at \<open>end + 1\<close>.
\<close>

definition close_segment ::
  "(real \<Rightarrow> real \<Rightarrow> real list) \<Rightarrow> real list \<Rightarrow> nat \<Rightarrow> tick_scan \<Rightarrow> tick_scan" where
  "close_segment timeTicks positions' end' st =
     (let st' =
            (if positions' ! end' > lastGroupPosition st
             then
               (let ticks =
                      dropWhile (\<lambda>t. t \<le> lastGroupPosition st)
                        (timeTicks (positions' ! start st) (positions' ! end'))
                in st\<lparr>segmentPositions := Some ticks,
                      lastGroupPosition :=
                        (if ticks \<noteq> [] then last ticks else lastGroupPosition st),
                      segmentStarts := segmentStarts st @ [length (groupPositions st)],
                      groupPositions := groupPositions st @ ticks\<rparr>)
             else st)
      in st'\<lparr>start := end' + 1\<rparr>)"

text \<open>
  One round of the loop of lines 232-283, for the index \<open>end\<close>. The gap to the next
  position and the product \<^verbatim>\<open>closestDistance * 5\<close> are computed in doubles.
\<close>

definition getTimeTicks_step ::
  "(real \<Rightarrow> real \<Rightarrow> real list) \<Rightarrow> real \<Rightarrow> real \<Rightarrow> real list \<Rightarrow> real \<Rightarrow> nat \<Rightarrow>
   tick_scan \<Rightarrow> tick_scan" where
  "getTimeTicks_step timeTicks min' max' positions' closestDistance end' st =
     (let outsideMax = (end' \<noteq> 0 \<and> positions' ! (end' - 1) > max');
          st1 = (if positions' ! end' < min' then st\<lparr>start := end'\<rparr> else st)
      in
      if end' = length positions' - 1 \<or>
         jgt (dsub (Num (positions' ! (end' + 1))) (Num (positions' ! end')))
             (dmul (Num closestDistance) (Num 5)) \<or>
         outsideMax
      then close_segment timeTicks positions' end' st1
      else st1)"

function getTimeTicks_loop ::
  "(real \<Rightarrow> real \<Rightarrow> real list) \<Rightarrow> real \<Rightarrow> real \<Rightarrow> real list \<Rightarrow> real \<Rightarrow> nat \<Rightarrow>
   tick_scan \<Rightarrow> tick_scan" where
  "getTimeTicks_loop timeTicks min' max' positions' closestDistance end' st =
     (if end' < length positions' then
        (let st' = getTimeTicks_step timeTicks min' max' positions' closestDistance end' st in
           if end' \<noteq> 0 \<and> positions' ! (end' - 1) > max' then st'
           else getTimeTicks_loop timeTicks min' max' positions' closestDistance (end' + 1) st')
      else st)"
  by pat_completeness auto
termination
  by (relation "measure (\<lambda>(timeTicks, min', max', positions', closestDistance, end', st).
        length positions' - end')") auto

declare getTimeTicks_loop.simps [simp del]

text \<open>
  The outcome of \<^verbatim>\<open>getTimeTicks\<close> up to the end of the scan (line 283): \<open>Plain\<close> when the
  call is handed unchanged to the plain time-tick function (lines 217-224), \<open>Segmented\<close>
  with the variables of the scan otherwise. The ranking and thinning of the ticks that
  follow the scan (lines 285-395) are not modelled.
\<close>

datatype tick_outcome = Plain | Segmented tick_scan

text \<open>
  \<^verbatim>\<open>getTimeTicks\<close> (lines 189-283). \<open>ordinal'\<close> and \<open>breaks'\<close> are the truth values of
  \<^verbatim>\<open>this.options.ordinal\<close> and \<^verbatim>\<open>this.options.breaks\<close>; \<open>min\<close> is \<open>None\<close> when undefined;
  \<open>positions\<close> defaults to the empty array.
\<close>

definition getTimeTicks ::
  "bool \<Rightarrow> bool \<Rightarrow> (real \<Rightarrow> real \<Rightarrow> real list) \<Rightarrow> real option \<Rightarrow> real \<Rightarrow> real list \<Rightarrow> real \<Rightarrow>
   tick_outcome" where
  "getTimeTicks ordinal' breaks' timeTicks min' max' positions' closestDistance =
     (case min' of
        None \<Rightarrow> Plain
      | Some m \<Rightarrow>
          if (\<not> ordinal' \<and> \<not> breaks') \<or> length positions' < 3 then Plain
          else Segmented
                 (getTimeTicks_loop timeTicks m max' positions' closestDistance 0
                    initial_scan))"

text \<open>
  The conditions of the scan at index \<open>i\<close>, named for the statements below:
  \<open>outside_max\<close> is the source's \<^verbatim>\<open>outsideMax\<close> (the position before \<open>i\<close> exceeds \<open>max\<close>),
  and \<open>segment_end\<close> is the condition of lines 240-244 under which the range is closed
  at \<open>i\<close>: \<open>i\<close> is the last index, or the gap to the next position exceeds five times
  the closest distance (both computed in doubles), or \<open>outside_max\<close> holds.
  \<open>segment_ends\<close> lists the indices at which the scan closes a range: those that satisfy
  \<open>segment_end\<close> and that the scan reaches (it stops at the first index where
  \<open>outside_max\<close> holds). \<open>segment_start\<close> is where the range that is closed at \<open>e\<close>
  starts when the one before ended at \<open>s - 1\<close>: at \<open>s\<close>, or at the last position below
  \<open>min\<close> among \<open>s..e\<close> (lines 236-238).
\<close>

definition outside_max :: "real \<Rightarrow> real list \<Rightarrow> nat \<Rightarrow> bool" where
  "outside_max mx P i = (i \<noteq> 0 \<and> P ! (i - 1) > mx)"

definition segment_end :: "real \<Rightarrow> real list \<Rightarrow> real \<Rightarrow> nat \<Rightarrow> bool" where
  "segment_end mx P cd i =
     (i = length P - 1 \<or>
      jgt (dsub (Num (P ! (i + 1))) (Num (P ! i))) (dmul (Num cd) (Num 5)) \<or>
      outside_max mx P i)"

definition segment_ends :: "real \<Rightarrow> real list \<Rightarrow> real \<Rightarrow> nat list" where
  "segment_ends mx P cd =
     [i \<leftarrow> [0..<length P].
        segment_end mx P cd i \<and> list_all (\<lambda>j. \<not> outside_max mx P j) [0..<i]]"

definition segment_start :: "real \<Rightarrow> real list \<Rightarrow> nat \<Rightarrow> nat \<Rightarrow> nat" where
  "segment_start mn P s e = foldl (\<lambda>s' j. if P ! j < mn then j else s') s [s..<Suc e]"

text \<open>
  Two time-tick collaborators for examples: ticks at the two ends of the range, and the
  ticks \<open>0\<close> and \<open>20\<close> that an interval of \<open>20\<close> gives for a range inside \<open>0..20\<close>.
\<close>

definition ticks_at_ends :: "real \<Rightarrow> real \<Rightarrow> real list" where
  "ticks_at_ends a b = [a, b]"

definition ticks_0_20 :: "real \<Rightarrow> real \<Rightarrow> real list" where
  "ticks_0_20 a b = [0, 20]"

section \<open>Panning\<close>





text \<open>
  What \<^verbatim>\<open>onChartPan\<close> reads and writes of the chart and its first x axis: the ordinal
  fields, the extremes \<open>xMin\<close> and \<open>xMax\<close> (\<^verbatim>\<open>xAxis.min\<close>, \<^verbatim>\<open>xAxis.max\<close>), the axis
  options and the pointer reference. \<open>panning\<close> is the \<^verbatim>\<open>type\<close> of the panning options
  (\<open>None\<close> without panning options); \<open>defaultPrevented\<close> records \<^verbatim>\<open>e.preventDefault()\<close>.
  Tooltip states and the cursor style are not modelled.
\<close>

record pan_state =
  xAxis :: ordinal_axis
  xMin :: jsnum
  xMax :: jsnum
  ordinalOption :: bool
  seriesLength :: nat
  closestPointRange :: jsnum
  translationSlope :: jsnum
  panning :: "string option"
  mouseDownX :: jsnum
  fixedRange :: jsnum
  defaultPrevented :: bool







text \<open>
  The end of the handler (lines 734-741): the base pan takes over when \<open>runBase\<close> is set
  or the panning type contains \<open>y\<close>, and then a truthy overscroll resets \<^verbatim>\<open>xAxis.max\<close>.
\<close>

definition pan_finish :: "bool \<Rightarrow> jsnum \<Rightarrow> pan_state \<Rightarrow> pan_state" where
  "pan_finish runBase overscroll' chart =
     (if runBase \<or> (case panning chart of None \<Rightarrow> False | Some t \<Rightarrow> CHR ''y'' \<in> set t)
      then (if \<not> falsy overscroll'
            then chart\<lparr>xMax := jadd (dataMax (xAxis chart)) overscroll'\<rparr> else chart)
      else chart\<lparr>defaultPrevented := True\<rparr>)"




text \<open>
  Example axes: visible positions \<open>[1,3,5,10]\<close> with the given extended positions, and an
  axis with data from \<open>0\<close> to \<open>100\<close>, \<open>500\<close> pixels long, with an overscroll of \<open>10\<close>, a
  closest point distance of \<open>4\<close> and the given cached original ordinal range.
\<close>

definition translation_example :: "real list option \<Rightarrow> ordinal_axis" where
  "translation_example ext =
     \<lparr>positions = Some [1, 3, 5, 10], slope = Undefined, offset = Undefined,
      extendedPositions = ext, overscrollPointsRange = Undefined,
      originalOrdinalRange = Undefined, dataMin = Num 1, dataMax = Num 10, len = Num 100,
      overscroll = None\<rparr>"

definition overscroll_example :: "jsnum \<Rightarrow> ordinal_axis" where
  "overscroll_example cached =
     \<lparr>positions = None, slope = Undefined, offset = Undefined, extendedPositions = None,
      overscrollPointsRange = Num 4, originalOrdinalRange = cached, dataMin = Num 0,
      dataMax = Num 100, len = Num 500, overscroll = Some (OvNumber (Num 10))\<rparr>"





text \<open>
  Two axes on which rounding shows: positions with a gap of \<open>10\<close> to the power \<open>17\<close>, and
  data that ends at \<open>2\<close> to the power \<open>53\<close> with a closest point distance of \<open>1\<close> and an
  overscroll of \<open>10\<close>.
\<close>

definition absorbed_index_example :: ordinal_axis where
  "absorbed_index_example =
     \<lparr>positions = Some [0, 1, 100000000000000000], slope = Undefined, offset = Undefined,
      extendedPositions = None, overscrollPointsRange = Undefined,
      originalOrdinalRange = Undefined, dataMin = Num 0, dataMax = Num 100000000000000000,
      len = Num 100, overscroll = None\<rparr>"


section \<open>Properties of the binary search\<close>

lemma ceil_half: "\<lceil>real_of_int n / 2\<rceil> = (n + 1) div 2"
proof -
  have "\<lceil>real_of_int n / real_of_int 2\<rceil> = - (- n div 2)"
    by (rule ceiling_divide_eq_div)
  then show ?thesis by simp
qed

lemma ceil_half_sum: "\<lceil>(real_of_int a + real_of_int b) / 2\<rceil> = (a + b + 1) div 2"
  using ceil_half [of "a + b"] by simp

lemma findIndexOf_loop_done: "\<not> s < e \<Longrightarrow> findIndexOf_loop A k s e = s"
  by (subst findIndexOf_loop.simps) simp

lemma findIndexOf_loop_right:
  "s < e \<Longrightarrow> jle (aget A ((s + e + 1) div 2)) (Num k) \<Longrightarrow>
   findIndexOf_loop A k s e = findIndexOf_loop A k ((s + e + 1) div 2) e"
  by (subst findIndexOf_loop.simps) (simp add: ceil_half_sum Let_def)

lemma findIndexOf_loop_left:
  "s < e \<Longrightarrow> \<not> jle (aget A ((s + e + 1) div 2)) (Num k) \<Longrightarrow>
   findIndexOf_loop A k s e = findIndexOf_loop A k s ((s + e + 1) div 2 - 1)"
  by (subst findIndexOf_loop.simps) (simp add: ceil_half_sum Let_def)

lemma jle_aget:
  "0 \<le> i \<Longrightarrow> i < int (length A) \<Longrightarrow> jle (aget A i) (Num k) = (A ! nat i \<le> k)"
  by (auto simp: jle_def jlt_def aget_def is_nan_def)

lemma mid_eq: "\<lceil>real_of_int (s + e) / 2\<rceil> = (s + e + 1) div 2"
  by (rule ceil_half)

text \<open>The result of the loop stays between the bounds it was started with.\<close>

lemma findIndexOf_loop_range:
  "s \<le> e \<Longrightarrow> s \<le> findIndexOf_loop A k s e \<and> findIndexOf_loop A k s e \<le> e"
proof (induction A k s e rule: findIndexOf_loop.induct)
  case (1 A k s e)
  let ?m = "(s + e + 1) div 2"
  note IH1 = 1(1)[OF _ refl, unfolded mid_eq]
  note IH2 = 1(2)[OF _ refl, unfolded mid_eq]
  show ?case
  proof (cases "s < e")
    case False
    with 1(3) show ?thesis by (simp add: findIndexOf_loop_done)
  next
    case True
    then have m: "s < ?m" "?m \<le> e" by linarith+
    show ?thesis
    proof (cases "jle (aget A ?m) (Num k)")
      case le: True
      have "?m \<le> findIndexOf_loop A k ?m e \<and> findIndexOf_loop A k ?m e \<le> e"
        by (rule IH1[OF True le m(2)])
      then show ?thesis
        unfolding findIndexOf_loop_right[OF True le] using m by linarith
    next
      case gt: False
      have "s \<le> findIndexOf_loop A k s (?m - 1) \<and> findIndexOf_loop A k s (?m - 1) \<le> ?m - 1"
        by (rule IH2[OF True gt]) (use m in linarith)
      then show ?thesis
        unfolding findIndexOf_loop_left[OF True gt] using m by linarith
    qed
  qed
qed

lemma findIndexOf_loop_floor:
  assumes asc: "sorted_wrt (<) A"
  shows "0 \<le> s \<Longrightarrow> s \<le> e \<Longrightarrow> e < int (length A) \<Longrightarrow> A ! nat s \<le> k \<Longrightarrow>
     (\<forall>j. e < j \<and> j < int (length A) \<longrightarrow> k < A ! nat j) \<Longrightarrow>
     A ! nat (findIndexOf_loop A k s e) \<le> k \<and>
     (\<forall>j. findIndexOf_loop A k s e < j \<and> j < int (length A) \<longrightarrow> k < A ! nat j)"
  using asc
proof (induction A k s e rule: findIndexOf_loop.induct)
  case (1 A k s e)
  let ?m = "(s + e + 1) div 2"
  note IH1 = 1(1)[OF _ refl, unfolded mid_eq]
  note IH2 = 1(2)[OF _ refl, unfolded mid_eq]
  note s0 = \<open>0 \<le> s\<close> and se = \<open>s \<le> e\<close> and el = \<open>e < int (length A)\<close>
    and sk = \<open>A ! nat s \<le> k\<close>
    and above = \<open>\<forall>j. e < j \<and> j < int (length A) \<longrightarrow> k < A ! nat j\<close>
    and asc = \<open>sorted_wrt (<) A\<close>
  show ?case
  proof (cases "s < e")
    case False
    then have "findIndexOf_loop A k s e = s" by (rule findIndexOf_loop_done)
    moreover from False se have "e = s" by simp
    ultimately show ?thesis using sk above by simp
  next
    case True
    then have m: "s < ?m" "?m \<le> e" by linarith+
    then have m_in: "0 \<le> ?m" "?m < int (length A)" using s0 el by linarith+
    show ?thesis
    proof (cases "jle (aget A ?m) (Num k)")
      case le: True
      then have mk: "A ! nat ?m \<le> k" using m_in by (simp add: jle_aget)
      show ?thesis
        unfolding findIndexOf_loop_right[OF True le]
        by (rule IH1[OF True le m_in(1) m(2) el mk above asc])
    next
      case gt: False
      then have mk: "k < A ! nat ?m" using m_in by (simp add: jle_aget)
      have above': "\<forall>j. ?m - 1 < j \<and> j < int (length A) \<longrightarrow> k < A ! nat j"
      proof (intro allI impI)
        fix j assume j: "?m - 1 < j \<and> j < int (length A)"
        show "k < A ! nat j"
        proof (cases "j = ?m")
          case True then show ?thesis using mk by simp
        next
          case False
          then have "nat ?m < nat j" "nat j < length A" using j m_in by linarith+
          then have "A ! nat ?m < A ! nat j"
            using asc by (simp add: sorted_wrt_nth_less)
          with mk show ?thesis by simp
        qed
      qed
      have "s \<le> ?m - 1" "?m - 1 < int (length A)" using m m_in by linarith+
      then show ?thesis
        unfolding findIndexOf_loop_left[OF True gt]
        using IH2[OF True gt s0 _ _ sk above' asc] by blast
    qed
  qed
qed

text \<open>When every element right of \<open>start\<close> exceeds the key, the loop returns \<open>start\<close>.\<close>

lemma findIndexOf_loop_leftmost:
  "(\<forall>j. s < j \<and> j \<le> e \<longrightarrow> \<not> jle (aget A j) (Num k)) \<Longrightarrow> findIndexOf_loop A k s e = s"
proof (induction A k s e rule: findIndexOf_loop.induct)
  case (1 A k s e)
  let ?m = "(s + e + 1) div 2"
  note IH2 = 1(2)[OF _ refl, unfolded mid_eq]
  note all = \<open>\<forall>j. s < j \<and> j \<le> e \<longrightarrow> \<not> jle (aget A j) (Num k)\<close>
  show ?case
  proof (cases "s < e")
    case False
    then show ?thesis by (rule findIndexOf_loop_done)
  next
    case True
    then have m: "s < ?m" "?m \<le> e" by linarith+
    with all have gt: "\<not> jle (aget A ?m) (Num k)" by blast
    have "\<forall>j. s < j \<and> j \<le> ?m - 1 \<longrightarrow> \<not> jle (aget A j) (Num k)"
      using all m by auto
    then show ?thesis
      unfolding findIndexOf_loop_left[OF True gt] by (rule IH2[OF True gt])
  qed
qed

lemma aget_eq_Num: "aget A i = Num k \<Longrightarrow> k \<in> set A"
  by (auto simp: aget_def split: if_splits)

lemma findIndexOf_eval:
  "findIndexOf_loop A k s e =
     (if s < e then
        (if jle (aget A ((s + e + 1) div 2)) (Num k)
         then findIndexOf_loop A k ((s + e + 1) div 2) e
         else findIndexOf_loop A k s ((s + e + 1) div 2 - 1))
      else s)"
  by (subst findIndexOf_loop.simps) (simp add: ceil_half_sum Let_def)

lemma findIndexOf_indirect:
  assumes h: "sorted_wrt (<) A \<and> A \<noteq> [] \<and> A ! 0 \<le> k"
  shows "0 \<le> findIndexOf A k True" and "findIndexOf A k True < int (length A)"
    and "A ! nat (findIndexOf A k True) \<le> k"
    and "\<forall>j. findIndexOf A k True < j \<and> j < int (length A) \<longrightarrow> k < A ! nat j"
proof -
  let ?r = "findIndexOf_loop A k 0 (int (length A) - 1)"
  have r: "findIndexOf A k True = ?r" by (simp add: findIndexOf_def Let_def)
  from h have le: "(0::int) \<le> int (length A) - 1" by (cases A) simp_all
  from findIndexOf_loop_range[OF le, of A k]
  show "0 \<le> findIndexOf A k True" "findIndexOf A k True < int (length A)"
    unfolding r by linarith+
  from h have "A ! nat 0 \<le> k" "sorted_wrt (<) A" by simp_all
  with findIndexOf_loop_floor[where A=A and k=k and s=0 and e="int (length A) - 1"] le
  show "A ! nat (findIndexOf A k True) \<le> k"
    "\<forall>j. findIndexOf A k True < j \<and> j < int (length A) \<longrightarrow> k < A ! nat j"
    unfolding r by simp_all
qed

lemma findIndexOf_direct_miss: "k \<notin> set A \<Longrightarrow> findIndexOf A k False = - 1"
  by (auto simp: findIndexOf_def Let_def dest: aget_eq_Num)

text \<open>
  C3 (amended). On a strictly ascending, non-empty array whose first element is at most
  the key, \<open>findIndexOf\<close> with \<open>indirectSearch = true\<close> returns the greatest index whose
  element is at most the key: the index is inside the array, its element is at most the
  key, and every element at a greater index exceeds the key. On any array that does not
  hold the key, \<open>findIndexOf\<close> with \<open>indirectSearch = false\<close> returns \<open>-1\<close>.
\<close>

theorem findIndexOf_floor:
  "(sorted_wrt (<) A \<and> A \<noteq> [] \<and> A ! 0 \<le> k \<longrightarrow>
      0 \<le> findIndexOf A k True \<and> findIndexOf A k True < int (length A) \<and>
      A ! nat (findIndexOf A k True) \<le> k \<and>
      (\<forall>j. findIndexOf A k True < j \<and> j < int (length A) \<longrightarrow> k < A ! nat j)) \<and>
   (k \<notin> set A \<longrightarrow> findIndexOf A k False = - 1)"
  using findIndexOf_indirect [of A k] findIndexOf_direct_miss [of k A] by blast

theorem findIndexOf_floor_witness:
  "sorted_wrt (<) [1, 3, 5, 7, 9 :: real] \<and> [1, 3, 5, 7, 9 :: real] \<noteq> [] \<and>
   [1, 3, 5, 7, 9] ! 0 \<le> (6 :: real) \<and> (6 :: real) \<notin> set [1, 3, 5, 7, 9] \<and>
   findIndexOf [1, 3, 5, 7, 9] 6 True < 3 \<and> (3 :: int) < int (length [1, 3, 5, 7, 9 :: real]) \<and>
   0 \<le> findIndexOf [1, 3, 5, 7, 9] 6 True \<and>
   [1, 3, 5, 7, 9] ! nat (findIndexOf [1, 3, 5, 7, 9] 6 True) \<le> (6 :: real) \<and>
   (6 :: real) < [1, 3, 5, 7, 9] ! nat 3 \<and>
   findIndexOf [1, 3, 5, 7, 9] 6 False = - 1"
proof -
  have h: "sorted_wrt (<) [1, 3, 5, 7, 9 :: real] \<and> [1, 3, 5, 7, 9 :: real] \<noteq> [] \<and>
    [1, 3, 5, 7, 9] ! 0 \<le> (6 :: real)" by simp
  have n: "(6 :: real) \<notin> set [1, 3, 5, 7, 9]" by simp
  have r: "findIndexOf [1, 3, 5, 7, 9] 6 True < 3 \<and> (3 :: int) < int (length [1, 3, 5, 7, 9 :: real])"
    by (simp add: findIndexOf_def findIndexOf_eval aget_def jle_def jlt_def is_nan_def)
  from findIndexOf_floor [of "[1, 3, 5, 7, 9]" 6] h n r show ?thesis by blast
qed

text \<open>
  C3 as stated fails for a key below the first element: on \<open>[1]\<close> with key \<open>0\<close> the
  indirect search returns index \<open>0\<close>, whose element \<open>1\<close> is greater than the key.
\<close>

theorem findIndexOf_floor_counterexample:
  "sorted_wrt (<) [1 :: real] \<and> findIndexOf [1] 0 True = 0 \<and>
   \<not> [1 :: real] ! nat (findIndexOf [1] 0 True) \<le> 0"
  by (simp add: findIndexOf_def findIndexOf_eval aget_def)

text \<open>
  C4 (amended). On \<open>[1,3,5,7,9]\<close> with key \<open>6\<close>, \<open>findIndexOf\<close> returns index \<open>2\<close> (the
  index of \<open>5\<close>, the greatest element at most \<open>6\<close>) when \<open>indirectSearch = true\<close>, and
  \<open>-1\<close> when \<open>indirectSearch = false\<close>.
\<close>

theorem findIndexOf_example:
  "findIndexOf [1, 3, 5, 7, 9] 6 True = 2 \<and> findIndexOf [1, 3, 5, 7, 9] 6 False = - 1"
  by (simp add: findIndexOf_def findIndexOf_eval aget_def jle_def jlt_def is_nan_def)

text \<open>C4 as stated names index \<open>1\<close>; the search does not return it.\<close>

theorem findIndexOf_example_counterexample:
  "findIndexOf [1, 3, 5, 7, 9] 6 True \<noteq> 1"
  by (simp add: findIndexOf_def findIndexOf_eval aget_def jle_def jlt_def is_nan_def)

text \<open>
  C9. On a strictly ascending, non-empty array and a key strictly below its first element,
  \<open>findIndexOf\<close> with \<open>indirectSearch = true\<close> returns index \<open>0\<close>, although no element is
  at most the key; with \<open>indirectSearch = false\<close> it returns \<open>-1\<close>.
\<close>

theorem findIndexOf_left_edge:
  assumes "sorted_wrt (<) A" and "A \<noteq> []" and "k < A ! 0"
  shows "findIndexOf A k True = 0 \<and> findIndexOf A k False = - 1"
proof -
  have gt: "\<not> jle (aget A j) (Num k)" for j
  proof (cases "0 \<le> j \<and> j < int (length A)")
    case False
    then show ?thesis by (auto simp: aget_def jle_def jlt_def is_nan_def)
  next
    case True
    have "A ! 0 \<le> A ! nat j"
    proof (cases "nat j = 0")
      case True
      then show ?thesis by simp
    next
      case False
      then have "0 < nat j" "nat j < length A" using \<open>0 \<le> j \<and> j < int (length A)\<close> by linarith+
      then show ?thesis
        using assms(1) sorted_wrt_nth_less[of "(<)" A 0 "nat j"] by simp
    qed
    with assms(3) True show ?thesis by (simp add: jle_aget)
  qed
  then have loop: "findIndexOf_loop A k 0 (int (length A) - 1) = 0"
    by (intro findIndexOf_loop_leftmost) simp
  have "aget A 0 \<noteq> Num k" using assms(2,3) by (simp add: aget_def)
  with loop show ?thesis by (simp add: findIndexOf_def)
qed

theorem findIndexOf_left_edge_witness:
  "sorted_wrt (<) [1, 3, 5 :: real] \<and> [1, 3, 5 :: real] \<noteq> [] \<and> (0 :: real) < [1, 3, 5] ! 0 \<and>
   findIndexOf [1, 3, 5] 0 True = 0 \<and> findIndexOf [1, 3, 5] 0 False = - 1"
  using findIndexOf_left_edge [of "[1, 3, 5]" 0] by simp

section \<open>Properties of the translation\<close>

lemma asc_nth_mono:
  "sorted_wrt (<) A \<Longrightarrow> i \<le> j \<Longrightarrow> j < length A \<Longrightarrow> A ! i \<le> (A ! j :: real)"
  using sorted_wrt_nth_less [of "(<)" A i j] by (cases "i = j") auto

lemma asc_nth_le_last:
  "sorted_wrt (<) A \<Longrightarrow> i < length A \<Longrightarrow> A ! i \<le> (last A :: real)"
proof -
  assume a: "sorted_wrt (<) A" "i < length A"
  then have "A \<noteq> []" by auto
  then have "last A = A ! (length A - 1)" by (rule last_conv_nth)
  moreover have "A ! i \<le> A ! (length A - 1)" using a by (intro asc_nth_mono) simp_all
  ultimately show ?thesis by simp
qed

lemma findIndexOf_unique:
  assumes asc: "sorted_wrt (<) A" and i: "i < length A" and le: "A ! i \<le> k"
    and gt: "Suc i < length A \<longrightarrow> k < A ! Suc i"
  shows "findIndexOf A k True = int i"
proof -
  let ?r = "findIndexOf A k True"
  have "A ! 0 \<le> A ! i" using asc i by (intro asc_nth_mono) simp_all
  with asc i le have h: "sorted_wrt (<) A \<and> A \<noteq> [] \<and> A ! 0 \<le> k" by auto
  note r = findIndexOf_indirect [OF h]
  have "\<not> ?r < int i"
  proof
    assume "?r < int i"
    with i have "?r < int i \<and> int i < int (length A)" by simp
    with r(4) have "k < A ! nat (int i)" by blast
    with le show False by simp
  qed
  moreover have "\<not> int i < ?r"
  proof
    assume a: "int i < ?r"
    then have s: "Suc i \<le> nat ?r" "nat ?r < length A" using r(1,2) by linarith+
    then have "A ! Suc i \<le> A ! nat ?r" using asc by (intro asc_nth_mono)
    moreover from s gt have "k < A ! Suc i" by simp
    ultimately show False using r(3) by simp
  qed
  ultimately show ?thesis by simp
qed

lemma getIndexInArray_exact:
  assumes "sorted_wrt (<) A" and "i < length A"
  shows "getIndexInArray A (A ! i) = Num (real i)"
proof -
  have "Suc i < length A \<longrightarrow> A ! i < A ! Suc i"
    using assms(1) by (simp add: sorted_wrt_nth_less)
  with assms have "findIndexOf A (A ! i) True = int i"
    by (intro findIndexOf_unique) simp_all
  with assms(2) show ?thesis by (simp add: getIndexInArray_def aget_def)
qed

lemma getIndexInArray_between:
  assumes "sorted_wrt (<) A" and "Suc i < length A" and "A ! i < v" and "v < A ! Suc i"
  shows "getIndexInArray A v = Num (real i + (v - A ! i) / (A ! Suc i - A ! i))"
proof -
  from assms have "findIndexOf A v True = int i"
    by (intro findIndexOf_unique) simp_all
  moreover have "nat (int i + 1) = Suc i" by simp
  ultimately show ?thesis
    using assms(2-4)
    by (simp add: getIndexInArray_def aget_def jsub_def jadd_def jneg_def jdiv_def is_nan_def)
qed

lemma val2lin_visible:
  assumes "positions axis = Some P" and "P \<noteq> []" and "P ! 0 \<le> v" and "v \<le> last P"
  shows "val2lin axis v True = getIndexInArray P v"
proof -
  have "nat (int (length P) - 1) = length P - 1" by simp
  with assms show ?thesis
    by (simp add: val2lin_def val2lin_result_def aget_def jle_def jge_def jlt_def is_nan_def
        last_conv_nth)
qed

lemma findIndexOf_in_range:
  assumes "sorted_wrt (<) P" and "P \<noteq> []" and "P ! 0 \<le> v" and "v \<le> last (P :: real list)"
  shows "\<exists>i. i < length P \<and> (P ! i = v \<or> (Suc i < length P \<and> P ! i < v \<and> v < P ! Suc i))"
proof -
  let ?r = "findIndexOf P v True"
  from assms have h: "sorted_wrt (<) P \<and> P \<noteq> [] \<and> P ! 0 \<le> v" by simp
  note r = findIndexOf_indirect [OF h]
  let ?i = "nat ?r"
  have i: "?i < length P" using r(1,2) by linarith
  show ?thesis
  proof (cases "P ! ?i = v")
    case True
    with i show ?thesis by blast
  next
    case False
    with r(3) have lt: "P ! ?i < v" by simp
    have "Suc ?i < length P"
    proof (rule ccontr)
      assume "\<not> Suc ?i < length P"
      with i have "?i = length P - 1" by linarith
      with assms(2) have "last P = P ! ?i" by (simp add: last_conv_nth)
      with lt assms(4) show False by simp
    qed
    then have sl: "Suc ?i < length P" .
    from sl r(1) have "?r < int (Suc ?i) \<and> int (Suc ?i) < int (length P)" by linarith
    with r(4) have "v < P ! nat (int (Suc ?i))" by blast
    moreover have "nat (int (Suc ?i)) = Suc ?i" by (rule nat_int)
    ultimately have "v < P ! Suc ?i" by (simp only:)
    with sl i lt show ?thesis by blast
  qed
qed

lemma index2val_exact:
  assumes "positions axis = Some P" and "i < length P"
  shows "index2val axis (Num (real i)) = Num (P ! i)"
proof -
  have "real i \<le> real_of_int (int (length P) - 1)" using assms(2) by simp
  with assms show ?thesis
    by (simp add: index2val_def Let_def jlt_def jgt_def aget_def jadd_def is_nan_def)
qed

lemma index2val_between:
  assumes "positions axis = Some P" and "Suc i < length P" and "0 < t" and "t < 1"
  shows "index2val axis (Num (real i + t)) = Num (P ! i + t * (P ! Suc i - P ! i))"
proof -
  have fl: "\<lfloor>real i + t\<rfloor> = int i" using assms(3,4) by linarith
  have "real i + t \<le> real_of_int (int (length P) - 1)" using assms(2,4) by simp
  moreover have "nat (int i + 1) = Suc i" by simp
  ultimately show ?thesis
    using assms
    by (simp add: index2val_def Let_def jlt_def jgt_def aget_def jadd_def jsub_def jneg_def
        jmul_def is_nan_def fl)
qed

text \<open>
  C2. Round trip: for strictly ascending visible ordinal positions \<open>P\<close> with at least two
  elements and every \<open>v\<close> with \<open>P[0] \<le> v \<le> P[P.length - 1]\<close>,
  \<open>index2val(val2lin(v, true))\<close> is \<open>v\<close> (arithmetic being exact).
\<close>

theorem val2lin_round_trip:
  assumes "positions axis = Some P" and "sorted_wrt (<) P" and "2 \<le> length P"
    and "P ! 0 \<le> v" and "v \<le> last P"
  shows "index2val axis (val2lin axis v True) = Num v"
proof -
  from assms(3) have ne: "P \<noteq> []" by auto
  from findIndexOf_in_range [OF assms(2) ne assms(4,5)]
  obtain i where i: "i < length P"
    and c: "P ! i = v \<or> (Suc i < length P \<and> P ! i < v \<and> v < P ! Suc i)" by blast
  have vis: "val2lin axis v True = getIndexInArray P v"
    using assms(1) ne assms(4,5) by (rule val2lin_visible)
  from c show ?thesis
  proof
    assume "P ! i = v"
    with getIndexInArray_exact [OF assms(2) i] index2val_exact [OF assms(1) i] vis
    show ?thesis by simp
  next
    assume b: "Suc i < length P \<and> P ! i < v \<and> v < P ! Suc i"
    let ?t = "(v - P ! i) / (P ! Suc i - P ! i)"
    from b have t: "0 < ?t" "?t < 1" by simp_all
    from b have "getIndexInArray P v = Num (real i + ?t)"
      using assms(2) by (simp add: getIndexInArray_between)
    moreover from b have "index2val axis (Num (real i + ?t)) = Num (P ! i + ?t * (P ! Suc i - P ! i))"
      using assms(1) t by (intro index2val_between) simp_all
    moreover from b have "P ! i + ?t * (P ! Suc i - P ! i) = v" by simp
    ultimately show ?thesis using vis by simp
  qed
qed

theorem val2lin_round_trip_witness:
  "positions (translation_example None) = Some [1, 3, 5, 10] \<and>
   sorted_wrt (<) [1, 3, 5, 10 :: real] \<and> 2 \<le> length [1, 3, 5, 10 :: real] \<and>
   [1, 3, 5, 10] ! 0 \<le> (7 :: real) \<and> (7 :: real) \<le> last [1, 3, 5, 10] \<and>
   index2val (translation_example None) (val2lin (translation_example None) 7 True) = Num 7"
  using val2lin_round_trip [of "translation_example None" "[1, 3, 5, 10]" 7]
  by (simp add: translation_example_def)

text \<open>
  C8. Identity fallback of \<open>val2lin\<close>: a value outside the visible positions' bounds and
  outside the bounds of the (non-empty) extended positions is returned unchanged when
  \<open>toIndex\<close> is false; and a value outside the visible bounds is returned unchanged for
  either \<open>toIndex\<close> when the extended positions are unavailable or empty.
\<close>

theorem val2lin_identity_fallback:
  assumes "positions axis = Some P"
    and "P = [] \<or> v < P ! 0 \<or> last P < v"
  shows "(extendedPositions axis = Some E \<and> E \<noteq> [] \<and> (v < E ! 0 \<or> last E < v) \<longrightarrow>
           val2lin axis v False = Num v) \<and>
         (extendedPositions axis = None \<or> extendedPositions axis = Some [] \<longrightarrow>
           val2lin axis v toIndex = Num v)"
proof -
  have n: "nat (int (length P) - 1) = length P - 1" "nat (int (length E) - 1) = length E - 1"
    by simp_all
  have vis: "\<not> (jle (aget P 0) (Num v) \<and> jge (aget P (int (length P) - 1)) (Num v))"
    using assms(2) by (auto simp: aget_def jle_def jge_def jlt_def is_nan_def last_conv_nth n)
  have ext: "E \<noteq> [] \<Longrightarrow> v < E ! 0 \<or> last E < v \<Longrightarrow>
    \<not> (jge (Num v) (aget E 0) \<and> jle (Num v) (aget E (int (length E) - 1)))"
    by (auto simp: aget_def jle_def jge_def jlt_def is_nan_def last_conv_nth n)
  show ?thesis
    using assms(1) vis ext by (auto simp: val2lin_def Let_def)
qed

theorem val2lin_identity_fallback_witness:
  "positions (translation_example (Some [0, 1, 3, 5, 10, 12])) = Some [1, 3, 5, 10] \<and>
   ([1, 3, 5, 10 :: real] = [] \<or> (13 :: real) < [1, 3, 5, 10] ! 0 \<or>
    last [1, 3, 5, 10] < (13 :: real)) \<and>
   extendedPositions (translation_example (Some [0, 1, 3, 5, 10, 12])) =
     Some [0, 1, 3, 5, 10, 12] \<and>
   [0, 1, 3, 5, 10, 12 :: real] \<noteq> [] \<and>
   ((13 :: real) < [0, 1, 3, 5, 10, 12] ! 0 \<or> last [0, 1, 3, 5, 10, 12] < (13 :: real)) \<and>
   val2lin (translation_example (Some [0, 1, 3, 5, 10, 12])) 13 False = Num 13 \<and>
   positions (translation_example None) = Some [1, 3, 5, 10] \<and>
   (extendedPositions (translation_example None) = None \<or>
    extendedPositions (translation_example None) = Some []) \<and>
   val2lin (translation_example None) 13 True = Num 13"
  using val2lin_identity_fallback
      [of "translation_example (Some [0, 1, 3, 5, 10, 12])" "[1, 3, 5, 10]" 13
          "[0, 1, 3, 5, 10, 12]" False]
    val2lin_identity_fallback [of "translation_example None" "[1, 3, 5, 10]" 13 "[]" True]
  by (simp add: translation_example_def)

section \<open>Properties of the rounding\<close>

text \<open>Unfolding rules that compute a rounding at a given number.\<close>

lemma expo_up_eval:
  "expo_up x e = (if 2 \<le> x \<and> e < 1023 then expo_up (x / 2) (e + 1) else e)"
  by (rule expo_up.simps)

lemma expo_down_eval:
  "expo_down x e = (if x < 1 \<and> - 1022 < e then expo_down (x * 2) (e - 1) else e)"
  by (rule expo_down.simps)

lemmas double_eval = to_double_def round_to_ulp_def exponent_def expo_up_eval expo_down_eval
  pow2_def round_half_even_def MAX_VALUE_def Let_def

lemmas double_ops = dadd_def dsub_def dmul_def ddiv_def rnd_def

lemma pow2_powr: "pow2 k = 2 powr real_of_int k"
proof (cases "0 \<le> k")
  case True
  then have "real_of_int k = real (nat k)" by simp
  then have "2 powr real_of_int k = (2 :: real) ^ nat k"
    by (simp only: powr_realpow zero_less_numeral)
  with True show ?thesis by (simp add: pow2_def)
next
  case False
  then have "real_of_int k = - real (nat (- k))" by simp
  then have "2 powr real_of_int k = 1 / (2 :: real) ^ nat (- k)"
    by (simp only: powr_minus powr_realpow zero_less_numeral inverse_eq_divide)
  with False show ?thesis by (simp add: pow2_def)
qed

lemma pow2_pos: "0 < pow2 k"
  by (simp add: pow2_powr)

lemma pow2_add: "pow2 (a + b) = pow2 a * pow2 b"
  by (simp add: pow2_powr powr_add)

lemma pow2_mono: "a \<le> b \<Longrightarrow> pow2 a \<le> pow2 b"
  by (simp add: pow2_powr)

lemma pow2_numeral: "pow2 0 = 1" "pow2 1 = 2" "pow2 52 = 2 ^ 52" "pow2 53 = 2 ^ 53"
  by (simp_all add: pow2_def)

lemma pow2_Suc: "pow2 (e + 1) = 2 * pow2 e"
  by (simp add: pow2_add pow2_numeral)

lemma pow2_shift53: "pow2 (e + 1) = 2 ^ 53 * pow2 (e - 52)"
proof -
  have "e + 1 = 53 + (e - 52)" by simp
  then show ?thesis by (simp only: pow2_add pow2_numeral)
qed

lemma pow2_shift52: "pow2 e = 2 ^ 52 * pow2 (e - 52)"
proof -
  have "e = 52 + (e - 52)" by simp
  then have "pow2 e = pow2 (52 + (e - 52))" by simp
  then show ?thesis by (simp only: pow2_add pow2_numeral)
qed

lemma pow2_pred: "2 * pow2 (e - 1) = pow2 e"
  using pow2_Suc[of "e - 1"] by simp

lemma expo_up_bounds:
  "1 \<le> x \<Longrightarrow> e \<le> 1023 \<Longrightarrow>
   e \<le> expo_up x e \<and> expo_up x e \<le> 1023 \<and> pow2 (expo_up x e) \<le> x * pow2 e \<and>
   (expo_up x e < 1023 \<longrightarrow> x * pow2 e < pow2 (expo_up x e + 1))"
proof (induction x e rule: expo_up.induct)
  case (1 x e)
  show ?case
  proof (cases "2 \<le> x \<and> e < 1023")
    case True
    then have eq: "expo_up x e = expo_up (x / 2) (e + 1)"
      by (subst expo_up.simps) simp
    have "1 \<le> x / 2" "e + 1 \<le> 1023" using True by simp_all
    from "1.IH"[OF True this]
    have IH: "e + 1 \<le> expo_up (x / 2) (e + 1) \<and> expo_up (x / 2) (e + 1) \<le> 1023 \<and>
      pow2 (expo_up (x / 2) (e + 1)) \<le> x / 2 * pow2 (e + 1) \<and>
      (expo_up (x / 2) (e + 1) < 1023 \<longrightarrow>
         x / 2 * pow2 (e + 1) < pow2 (expo_up (x / 2) (e + 1) + 1))" .
    have "x / 2 * pow2 (e + 1) = x * pow2 e" by (simp add: pow2_Suc)
    with IH show ?thesis unfolding eq by auto
  next
    case False
    then have eq: "expo_up x e = e"
      by (subst expo_up.simps) auto
    have "pow2 e \<le> x * pow2 e" using "1.prems"(1) pow2_pos[of e] by simp
    moreover have "x * pow2 e < pow2 (e + 1)" if "e < 1023"
    proof -
      from that False have "x < 2" by simp
      then show ?thesis using pow2_pos[of e] by (simp add: pow2_Suc)
    qed
    ultimately show ?thesis unfolding eq using "1.prems"(2) by simp
  qed
qed

lemma expo_down_bounds:
  "0 < x \<Longrightarrow> x < 2 \<Longrightarrow> - 1022 \<le> e \<Longrightarrow>
   - 1022 \<le> expo_down x e \<and> expo_down x e \<le> e \<and>
   (- 1022 < expo_down x e \<longrightarrow> pow2 (expo_down x e) \<le> x * pow2 e) \<and>
   x * pow2 e < pow2 (expo_down x e + 1)"
proof (induction x e rule: expo_down.induct)
  case (1 x e)
  show ?case
  proof (cases "x < 1 \<and> - 1022 < e")
    case True
    then have eq: "expo_down x e = expo_down (x * 2) (e - 1)"
      by (subst expo_down.simps) simp
    have "0 < x * 2" "x * 2 < 2" "- 1022 \<le> e - 1" using True "1.prems"(1) by simp_all
    from "1.IH"[OF True this]
    have IH: "- 1022 \<le> expo_down (x * 2) (e - 1) \<and> expo_down (x * 2) (e - 1) \<le> e - 1 \<and>
      (- 1022 < expo_down (x * 2) (e - 1) \<longrightarrow>
         pow2 (expo_down (x * 2) (e - 1)) \<le> x * 2 * pow2 (e - 1)) \<and>
      x * 2 * pow2 (e - 1) < pow2 (expo_down (x * 2) (e - 1) + 1)" .
    have "x * 2 * pow2 (e - 1) = x * pow2 e" using pow2_pred[of e] by simp
    with IH show ?thesis unfolding eq by auto
  next
    case False
    then have eq: "expo_down x e = e"
      by (subst expo_down.simps) auto
    have "pow2 e \<le> x * pow2 e" if "- 1022 < e"
    proof -
      from that False have "1 \<le> x" by simp
      then show ?thesis using pow2_pos[of e] by simp
    qed
    moreover have "x * pow2 e < pow2 (e + 1)"
      using "1.prems"(2) pow2_pos[of e] by (simp add: pow2_Suc)
    ultimately show ?thesis unfolding eq using "1.prems"(3) by simp
  qed
qed

lemma exponent_bounds:
  assumes "0 < x"
  shows "- 1022 \<le> exponent x \<and> exponent x \<le> 1023 \<and>
    (- 1022 < exponent x \<longrightarrow> pow2 (exponent x) \<le> x) \<and>
    (exponent x < 1023 \<longrightarrow> x < pow2 (exponent x + 1))"
proof (cases "1 \<le> x")
  case True
  then have e: "exponent x = expo_up x 0" using assms by (simp add: exponent_def)
  from expo_up_bounds[OF True, of 0] show ?thesis unfolding e by (simp add: pow2_numeral)
next
  case False
  then have e: "exponent x = expo_down x 0" using assms by (simp add: exponent_def)
  from False have "x < 2" by simp
  from expo_down_bounds[OF assms this, of 0] show ?thesis unfolding e by (simp add: pow2_numeral)
qed

lemma exponent_mono:
  assumes "0 < a" and "a \<le> b"
  shows "exponent a \<le> exponent b"
proof -
  from assms have pos: "0 < b" by simp
  note ba = exponent_bounds[OF assms(1)] and bb = exponent_bounds[OF pos]
  have False if lt: "exponent b < exponent a"
  proof -
    from lt bb have "- 1022 < exponent a" by linarith
    with ba have "pow2 (exponent a) \<le> a" by simp
    moreover from lt ba have "exponent b < 1023" by linarith
    with bb have "b < pow2 (exponent b + 1)" by simp
    moreover from lt have "pow2 (exponent b + 1) \<le> pow2 (exponent a)" by (intro pow2_mono) simp
    ultimately show False using assms(2) by linarith
  qed
  then show ?thesis by fastforce
qed

lemma round_half_even_int: "round_half_even (real_of_int n) = n"
  by (simp add: round_half_even_def)

lemma round_half_even_mono:
  assumes "s \<le> t"
  shows "round_half_even s \<le> round_half_even t"
proof (cases "\<lfloor>s\<rfloor> = \<lfloor>t\<rfloor>")
  case True
  with assms show ?thesis by (auto simp: round_half_even_def Let_def)
next
  case False
  with assms have "\<lfloor>s\<rfloor> < \<lfloor>t\<rfloor>" using floor_mono[OF assms] by simp
  moreover have "round_half_even s \<le> \<lfloor>s\<rfloor> + 1" by (simp add: round_half_even_def Let_def)
  moreover have "\<lfloor>t\<rfloor> \<le> round_half_even t" by (simp add: round_half_even_def Let_def)
  ultimately show ?thesis by linarith
qed

lemma round_to_ulp_zero: "round_to_ulp 0 = 0"
  by (simp add: round_to_ulp_def round_half_even_def Let_def)

lemma round_to_ulp_nonneg:
  assumes "0 \<le> x"
  shows "0 \<le> round_to_ulp x"
proof -
  have "0 \<le> x / pow2 (exponent x - 52)" using assms pow2_pos[of "exponent x - 52"] by simp
  from round_half_even_mono[OF this] have "0 \<le> round_half_even (x / pow2 (exponent x - 52))"
    using round_half_even_int[of 0] by simp
  then show ?thesis using pow2_pos[of "exponent x - 52"] by (simp add: round_to_ulp_def Let_def)
qed

lemma round_to_ulp_mono:
  assumes "0 < x" and "x \<le> y"
  shows "round_to_ulp x \<le> round_to_ulp y"
proof -
  from assms have y: "0 < y" by simp
  let ?ex = "exponent x" and ?ey = "exponent y"
  note bx = exponent_bounds[OF assms(1)] and by' = exponent_bounds[OF y]
  have le: "?ex \<le> ?ey" using assms by (rule exponent_mono)
  show ?thesis
  proof (cases "?ex = ?ey")
    case True
    have "x / pow2 (?ey - 52) \<le> y / pow2 (?ey - 52)"
      using assms(2) pow2_pos[of "?ey - 52"] by (simp add: divide_right_mono)
    from round_half_even_mono[OF this] show ?thesis
      using pow2_pos[of "?ey - 52"] by (simp add: round_to_ulp_def Let_def True)
  next
    case False
    with le have lt: "?ex < ?ey" by simp
    with by' have "?ex < 1023" by linarith
    with bx have "x < pow2 (?ex + 1)" by simp
    moreover have "pow2 (?ex + 1) = 2 ^ 53 * pow2 (?ex - 52)"
      by (rule pow2_shift53)
    ultimately have "x / pow2 (?ex - 52) \<le> real_of_int (2 ^ 53)"
      using pow2_pos[of "?ex - 52"] by (simp add: pos_divide_le_eq)
    from round_half_even_mono[OF this]
    have "round_half_even (x / pow2 (?ex - 52)) \<le> 2 ^ 53"
      by (simp only: round_half_even_int)
    then have "real_of_int (round_half_even (x / pow2 (?ex - 52))) \<le> 2 ^ 53"
      by (metis of_int_le_iff of_int_numeral of_int_power)
    then have "round_to_ulp x \<le> 2 ^ 53 * pow2 (?ex - 52)"
      using pow2_pos[of "?ex - 52"] by (simp add: round_to_ulp_def Let_def)
    also have "\<dots> = pow2 (?ex + 1)" by (rule pow2_shift53[symmetric])
    also have "\<dots> \<le> pow2 ?ey" using lt by (intro pow2_mono) simp
    finally have lo: "round_to_ulp x \<le> pow2 ?ey" .
    from lt bx have "- 1022 < ?ey" by linarith
    with by' have "pow2 ?ey \<le> y" by simp
    moreover have e2: "pow2 ?ey = 2 ^ 52 * pow2 (?ey - 52)"
      by (rule pow2_shift52)
    ultimately have "real_of_int (2 ^ 52) \<le> y / pow2 (?ey - 52)"
      using pow2_pos[of "?ey - 52"] by (simp add: pos_le_divide_eq)
    from round_half_even_mono[OF this]
    have "2 ^ 52 \<le> round_half_even (y / pow2 (?ey - 52))"
      by (simp only: round_half_even_int)
    then have "2 ^ 52 \<le> real_of_int (round_half_even (y / pow2 (?ey - 52)))"
      by (metis of_int_le_iff of_int_numeral of_int_power)
    then have "2 ^ 52 * pow2 (?ey - 52) \<le> round_to_ulp y"
      using pow2_pos[of "?ey - 52"] by (simp add: round_to_ulp_def Let_def)
    with e2 have "pow2 ?ey \<le> round_to_ulp y" by simp
    with lo show ?thesis by linarith
  qed
qed

lemma pow2_le_cancel: "pow2 a \<le> pow2 b \<Longrightarrow> a \<le> b"
  by (simp add: pow2_powr)

lemma exponent_nonneg:
  assumes "1 \<le> x"
  shows "0 \<le> exponent x"
proof -
  from assms have "exponent x = expo_up x 0" by (simp add: exponent_def)
  with expo_up_bounds[OF assms, of 0] show ?thesis by simp
qed

lemma round_to_ulp_nat:
  assumes "n \<le> 2 ^ 53"
  shows "round_to_ulp (real n) = real n"
proof (cases "n = 0")
  case True
  then show ?thesis by (simp add: round_to_ulp_zero)
next
  case False
  then have x1: "1 \<le> real n" and x0: "0 < real n" by simp_all
  let ?e = "exponent (real n)"
  have e0: "0 \<le> ?e" using x1 by (rule exponent_nonneg)
  then have "pow2 ?e \<le> real n" using exponent_bounds[OF x0] by simp
  also have "real n \<le> pow2 53" using assms by (simp add: pow2_numeral)
  finally have e53: "?e \<le> 53" by (rule pow2_le_cancel)
  have "\<exists>m. real n / pow2 (?e - 52) = real_of_int m"
  proof (cases "?e \<le> 52")
    case True
    have "pow2 (?e - 52) * pow2 (52 - ?e) = 1"
      using pow2_add[of "?e - 52" "52 - ?e"] by (simp add: pow2_numeral)
    then have "real n / pow2 (?e - 52) = real n * pow2 (52 - ?e)"
      using pow2_pos[of "?e - 52"] by (simp add: field_simps)
    also have "\<dots> = real_of_int (int n * 2 ^ nat (52 - ?e))"
      using True by (simp add: pow2_def)
    finally show ?thesis by blast
  next
    case False
    with e53 have e: "?e = 53" by simp
    then have "pow2 53 \<le> real n" using exponent_bounds[OF x0] by simp
    with assms have n: "real n = 2 ^ 53" by (simp add: pow2_numeral)
    have "pow2 (?e - 52) = 2" unfolding e by (simp add: pow2_numeral)
    then have "real n / pow2 (?e - 52) = 2 ^ 53 / 2" by (simp only: n)
    also have "\<dots> = real_of_int (2 ^ 52)" by simp
    finally show ?thesis by blast
  qed
  then obtain m where m: "real n / pow2 (?e - 52) = real_of_int m" by blast
  then have "real_of_int m * pow2 (?e - 52) = real n"
    using pow2_pos[of "?e - 52"] by (simp add: field_simps)
  then show ?thesis
    by (simp add: round_to_ulp_def Let_def m round_half_even_int)
qed

lemma MAX_VALUE_pos: "0 < MAX_VALUE"
  by (simp add: MAX_VALUE_def)

lemma to_double_Num:
  "to_double x = Num r \<longleftrightarrow> r = round_to_ulp x \<and> - MAX_VALUE \<le> r \<and> r \<le> MAX_VALUE"
  by (auto simp: to_double_def Let_def)

lemma to_double_nat:
  assumes "n \<le> 2 ^ 53"
  shows "to_double (real n) = Num (real n)"
proof -
  have "(2 :: real) ^ 53 \<le> MAX_VALUE" by (simp add: MAX_VALUE_def)
  moreover have "real n \<le> 2 ^ 53" using assms by (metis of_nat_le_iff of_nat_numeral of_nat_power)
  ultimately have "real n \<le> MAX_VALUE" by linarith
  moreover have "- MAX_VALUE \<le> real n" using MAX_VALUE_pos by (simp add: order_trans[of _ 0])
  ultimately show ?thesis by (simp add: to_double_Num round_to_ulp_nat[OF assms])
qed

text \<open>Rounding keeps the order of non-negative numbers.\<close>

lemma to_double_mono:
  assumes "0 \<le> x" and "x \<le> y" and "to_double y = Num ry"
  shows "\<exists>rx. to_double x = Num rx \<and> 0 \<le> rx \<and> rx \<le> ry"
proof -
  from assms(3) have ry: "ry = round_to_ulp y" "ry \<le> MAX_VALUE" by (simp_all add: to_double_Num)
  have nn: "0 \<le> round_to_ulp x" using assms(1) by (rule round_to_ulp_nonneg)
  have le: "round_to_ulp x \<le> round_to_ulp y"
  proof (cases "x = 0")
    case True
    from assms(1,2) have "0 \<le> round_to_ulp y" by (intro round_to_ulp_nonneg) simp
    with True show ?thesis by (simp add: round_to_ulp_zero)
  next
    case False
    with assms(1) have "0 < x" by simp
    then show ?thesis using assms(2) by (rule round_to_ulp_mono)
  qed
  have "- MAX_VALUE \<le> round_to_ulp x" using nn MAX_VALUE_pos by linarith
  with le ry nn have "to_double x = Num (round_to_ulp x)" by (simp add: to_double_Num)
  with le ry nn show ?thesis by simp
qed

section \<open>Properties of the translation in double precision\<close>

lemma getIndexInArray_double_exact:
  assumes "sorted_wrt (<) A" and "i < length A"
  shows "getIndexInArray_double A (A ! i) = Num (real i)"
proof -
  have "Suc i < length A \<longrightarrow> A ! i < A ! Suc i"
    using assms(1) by (simp add: sorted_wrt_nth_less)
  with assms have "findIndexOf A (A ! i) True = int i"
    by (intro findIndexOf_unique) simp_all
  with assms(2) show ?thesis by (simp add: getIndexInArray_double_def aget_def)
qed

lemma getIndexInArray_double_formula:
  assumes "sorted_wrt (<) A" and "Suc i < length A" and "A ! i < v" and "v < A ! Suc i"
  shows "getIndexInArray_double A v =
    dadd (Num (real i)) (ddiv (dsub (Num v) (Num (A ! i))) (dsub (Num (A ! Suc i)) (Num (A ! i))))"
proof -
  from assms(1-4) have "findIndexOf A v True = int i"
    by (intro findIndexOf_unique) simp_all
  moreover have "nat (int i + 1) = Suc i" by simp
  ultimately show ?thesis
    using assms(2-4) by (simp add: getIndexInArray_double_def aget_def)
qed

lemma fractional_index_exact:
  assumes "to_double (v - p) = Num (v - p)" and "to_double (q - p) = Num (q - p)"
    and "to_double ((v - p) / (q - p)) = Num ((v - p) / (q - p))"
    and "to_double (real i + (v - p) / (q - p)) = Num (real i + (v - p) / (q - p))"
    and "p < q"
  shows "dadd (Num (real i)) (ddiv (dsub (Num v) (Num p)) (dsub (Num q) (Num p))) =
    Num (real i + (v - p) / (q - p))"
  using assms by (simp add: double_ops jsub_def jadd_def jneg_def jdiv_def is_nan_def)

lemma fractional_index_bounds:
  assumes "p < v" and "v < q" and "Suc i \<le> 2 ^ 53"
    and "dsub (Num q) (Num p) = Num b" and "0 < b"
  shows "\<exists>r. dadd (Num (real i)) (ddiv (dsub (Num v) (Num p)) (dsub (Num q) (Num p))) = Num r \<and>
    real i \<le> r \<and> r \<le> real i + 1"
proof -
  from assms(4) have g: "to_double (q - p) = Num b"
    by (simp add: double_ops jsub_def jadd_def jneg_def is_nan_def)
  from assms(1,2) have "0 \<le> v - p" "v - p \<le> q - p" by simp_all
  from to_double_mono[OF this g] obtain a where
    a: "to_double (v - p) = Num a" "0 \<le> a" "a \<le> b" by blast
  have one: "to_double 1 = Num 1" using to_double_nat[of 1] by simp
  from a(2,3) assms(5) have "0 \<le> a / b" "a / b \<le> 1" by simp_all
  from to_double_mono[OF this one] obtain c where
    c: "to_double (a / b) = Num c" "0 \<le> c" "c \<le> 1" by blast
  have top: "to_double (real (Suc i)) = Num (real (Suc i))"
    using assms(3) by (rule to_double_nat)
  from c(2,3) have "0 \<le> real i + c" "real i + c \<le> real (Suc i)" by simp_all
  from to_double_mono[OF this top] obtain r where
    r: "to_double (real i + c) = Num r" "r \<le> real (Suc i)" by blast
  from assms(3) have "i \<le> 2 ^ 53" by simp
  then have "to_double (real i) = Num (real i)" by (rule to_double_nat)
  moreover have "0 \<le> real i" "real i \<le> real i + c" using c(2) by simp_all
  from to_double_mono[OF this r(1)] obtain l where
    "to_double (real i) = Num l" "l \<le> r" by blast
  ultimately have "real i \<le> r" by simp
  moreover have "dadd (Num (real i)) (ddiv (dsub (Num v) (Num p)) (dsub (Num q) (Num p))) = Num r"
    using a(1) g c(1) r(1) assms(5)
    by (simp add: double_ops jsub_def jadd_def jneg_def jdiv_def is_nan_def)
  ultimately show ?thesis using r(2) by auto
qed

lemma val2lin_double_visible:
  assumes "positions axis = Some P" and "P \<noteq> []" and "P ! 0 \<le> v" and "v \<le> last P"
  shows "val2lin_double axis v True = getIndexInArray_double P v"
proof -
  have "nat (int (length P) - 1) = length P - 1" by simp
  with assms show ?thesis
    by (simp add: val2lin_double_def val2lin_result_double_def aget_def jle_def jge_def jlt_def
        is_nan_def last_conv_nth)
qed

lemma val2lin_double_between:
  assumes "positions axis = Some P" and "sorted_wrt (<) P"
    and "Suc i < length P" and "P ! i < v" and "v < P ! Suc i"
  shows "val2lin_double axis v True =
    dadd (Num (real i)) (ddiv (dsub (Num v) (Num (P ! i))) (dsub (Num (P ! Suc i)) (Num (P ! i))))"
proof -
  from assms(2,3) have "P ! 0 \<le> P ! i" "P ! Suc i \<le> last P"
    by (simp_all add: asc_nth_mono asc_nth_le_last)
  with assms have "val2lin_double axis v True = getIndexInArray_double P v"
    by (intro val2lin_double_visible) auto
  with assms(2-5) show ?thesis by (simp add: getIndexInArray_double_formula)
qed

text \<open>
  C1 (amended). For strictly ascending visible ordinal positions \<open>P\<close>, \<open>val2lin(v, true)\<close>
  returns the exact index \<open>i\<close> for \<open>v = P[i]\<close>. For \<open>v\<close> strictly between \<open>P[i]\<close> and
  \<open>P[i+1]\<close> it returns the fractional index \<open>i + (v - P[i]) / (P[i+1] - P[i])\<close> as
  computed in doubles. That value lies between \<open>i\<close> and \<open>i + 1\<close>, the ends included, when
  the rounded difference \<open>P[i+1] - P[i]\<close> is finite and positive and \<open>P\<close> has at most \<open>2\<close>
  to the power \<open>53\<close> elements. Whenever the two differences \<open>v - P[i]\<close> and
  \<open>P[i+1] - P[i]\<close>, their quotient and its sum with \<open>i\<close> are doubles (the four operations
  of lines 497-500 do not round), it is exactly \<open>i + (v - P[i]) / (P[i+1] - P[i])\<close>, which
  lies strictly between \<open>i\<close> and \<open>i + 1\<close>.
\<close>

theorem val2lin_double_index:
  assumes "positions axis = Some P" and "sorted_wrt (<) P"
  shows "(i < length P \<longrightarrow> val2lin_double axis (P ! i) True = Num (real i)) \<and>
    (Suc i < length P \<and> P ! i < v \<and> v < P ! Suc i \<longrightarrow>
       val2lin_double axis v True =
         dadd (Num (real i))
           (ddiv (dsub (Num v) (Num (P ! i))) (dsub (Num (P ! Suc i)) (Num (P ! i))))) \<and>
    (Suc i < length P \<and> P ! i < v \<and> v < P ! Suc i \<and> length P \<le> 2 ^ 53 \<and>
     dsub (Num (P ! Suc i)) (Num (P ! i)) = Num b \<and> 0 < b \<longrightarrow>
       (\<exists>r. val2lin_double axis v True = Num r \<and> real i \<le> r \<and> r \<le> real i + 1)) \<and>
    (Suc i < length P \<and> P ! i < v \<and> v < P ! Suc i \<and>
     to_double (v - P ! i) = Num (v - P ! i) \<and>
     to_double (P ! Suc i - P ! i) = Num (P ! Suc i - P ! i) \<and>
     to_double ((v - P ! i) / (P ! Suc i - P ! i)) = Num ((v - P ! i) / (P ! Suc i - P ! i)) \<and>
     to_double (real i + (v - P ! i) / (P ! Suc i - P ! i)) =
       Num (real i + (v - P ! i) / (P ! Suc i - P ! i)) \<longrightarrow>
       val2lin_double axis v True = Num (real i + (v - P ! i) / (P ! Suc i - P ! i)) \<and>
       real i < real i + (v - P ! i) / (P ! Suc i - P ! i) \<and>
       real i + (v - P ! i) / (P ! Suc i - P ! i) < real i + 1)"
proof -
  have hit: "val2lin_double axis (P ! i) True = Num (real i)" if i: "i < length P"
  proof -
    from i have "P ! 0 \<le> P ! i" "P ! i \<le> last P"
      using assms(2) by (simp_all add: asc_nth_mono asc_nth_le_last)
    with i assms(1) have "val2lin_double axis (P ! i) True = getIndexInArray_double P (P ! i)"
      by (intro val2lin_double_visible) auto
    then show ?thesis using assms(2) i by (simp add: getIndexInArray_double_exact)
  qed
  have formula: "val2lin_double axis v True =
      dadd (Num (real i)) (ddiv (dsub (Num v) (Num (P ! i))) (dsub (Num (P ! Suc i)) (Num (P ! i))))"
    if "Suc i < length P \<and> P ! i < v \<and> v < P ! Suc i"
    using that assms by (intro val2lin_double_between) simp_all
  have bounds: "\<exists>r. val2lin_double axis v True = Num r \<and> real i \<le> r \<and> r \<le> real i + 1"
    if h: "Suc i < length P \<and> P ! i < v \<and> v < P ! Suc i \<and> length P \<le> 2 ^ 53 \<and>
      dsub (Num (P ! Suc i)) (Num (P ! i)) = Num b \<and> 0 < b"
  proof -
    from h have "Suc i \<le> 2 ^ 53" by linarith
    with h have "\<exists>r. dadd (Num (real i))
        (ddiv (dsub (Num v) (Num (P ! i))) (dsub (Num (P ! Suc i)) (Num (P ! i)))) = Num r \<and>
        real i \<le> r \<and> r \<le> real i + 1"
      by (intro fractional_index_bounds[where b = b]) simp_all
    with formula h show ?thesis by simp
  qed
  have exact: "val2lin_double axis v True = Num (real i + (v - P ! i) / (P ! Suc i - P ! i)) \<and>
       real i < real i + (v - P ! i) / (P ! Suc i - P ! i) \<and>
       real i + (v - P ! i) / (P ! Suc i - P ! i) < real i + 1"
    if h: "Suc i < length P \<and> P ! i < v \<and> v < P ! Suc i \<and>
     to_double (v - P ! i) = Num (v - P ! i) \<and>
     to_double (P ! Suc i - P ! i) = Num (P ! Suc i - P ! i) \<and>
     to_double ((v - P ! i) / (P ! Suc i - P ! i)) = Num ((v - P ! i) / (P ! Suc i - P ! i)) \<and>
     to_double (real i + (v - P ! i) / (P ! Suc i - P ! i)) =
       Num (real i + (v - P ! i) / (P ! Suc i - P ! i))"
  proof -
    from h have "P ! i < P ! Suc i" by linarith
    with h have "dadd (Num (real i))
        (ddiv (dsub (Num v) (Num (P ! i))) (dsub (Num (P ! Suc i)) (Num (P ! i)))) =
        Num (real i + (v - P ! i) / (P ! Suc i - P ! i))"
      by (intro fractional_index_exact) simp_all
    with formula h have "val2lin_double axis v True =
        Num (real i + (v - P ! i) / (P ! Suc i - P ! i))" by simp
    moreover from h have "real i < real i + (v - P ! i) / (P ! Suc i - P ! i)" by simp
    moreover from h have "real i + (v - P ! i) / (P ! Suc i - P ! i) < real i + 1" by simp
    ultimately show ?thesis by blast
  qed
  from hit formula bounds exact show ?thesis by blast
qed

text \<open>
  On \<open>[1,3,5,10]\<close>: the value \<open>5\<close> has index \<open>2\<close>; the value \<open>7\<close> has the index
  \<open>2 + (7 - 5) / (10 - 5)\<close> as computed in doubles, between \<open>2\<close> and \<open>3\<close>; and \<open>7.5\<close>,
  half way between \<open>5\<close> and \<open>10\<close>, has index \<open>2.5\<close>, no operation rounding.
\<close>

theorem val2lin_double_index_witness:
  "positions (translation_example None) = Some [1, 3, 5, 10] \<and>
   sorted_wrt (<) [1, 3, 5, 10 :: real] \<and> (2 :: nat) < length [1, 3, 5, 10 :: real] \<and>
   Suc 2 < length [1, 3, 5, 10 :: real] \<and>
   [1, 3, 5, 10] ! 2 < (7 :: real) \<and> (7 :: real) < [1, 3, 5, 10] ! Suc 2 \<and>
   length [1, 3, 5, 10 :: real] \<le> 2 ^ 53 \<and>
   dsub (Num ([1, 3, 5, 10] ! Suc 2)) (Num ([1, 3, 5, 10] ! 2)) = Num 5 \<and> (0 :: real) < 5 \<and>
   [1, 3, 5, 10] ! 2 < (15 / 2 :: real) \<and> (15 / 2 :: real) < [1, 3, 5, 10] ! Suc 2 \<and>
   to_double (15 / 2 - [1, 3, 5, 10] ! 2) = Num (15 / 2 - [1, 3, 5, 10] ! 2) \<and>
   to_double ([1, 3, 5, 10] ! Suc 2 - [1, 3, 5, 10] ! 2) =
     Num ([1, 3, 5, 10] ! Suc 2 - [1, 3, 5, 10] ! 2) \<and>
   to_double ((15 / 2 - [1, 3, 5, 10] ! 2) / ([1, 3, 5, 10] ! Suc 2 - [1, 3, 5, 10] ! 2)) =
     Num ((15 / 2 - [1, 3, 5, 10] ! 2) / ([1, 3, 5, 10] ! Suc 2 - [1, 3, 5, 10] ! 2)) \<and>
   to_double (real 2 + (15 / 2 - [1, 3, 5, 10] ! 2) / ([1, 3, 5, 10] ! Suc 2 - [1, 3, 5, 10] ! 2)) =
     Num (real 2 + (15 / 2 - [1, 3, 5, 10] ! 2) / ([1, 3, 5, 10] ! Suc 2 - [1, 3, 5, 10] ! 2)) \<and>
   val2lin_double (translation_example None) ([1, 3, 5, 10] ! 2) True = Num (real 2) \<and>
   val2lin_double (translation_example None) 7 True =
     dadd (Num (real 2))
       (ddiv (dsub (Num 7) (Num ([1, 3, 5, 10] ! 2)))
          (dsub (Num ([1, 3, 5, 10] ! Suc 2)) (Num ([1, 3, 5, 10] ! 2)))) \<and>
   (\<exists>r. val2lin_double (translation_example None) 7 True = Num r \<and> real 2 \<le> r \<and>
      r \<le> real 2 + 1) \<and>
   val2lin_double (translation_example None) (15 / 2) True =
     Num (real 2 + (15 / 2 - [1, 3, 5, 10] ! 2) / ([1, 3, 5, 10] ! Suc 2 - [1, 3, 5, 10] ! 2))"
proof -
  let ?P = "[1, 3, 5, 10] :: real list"
  have e: "to_double (5 / 2) = Num (5 / 2)" "to_double 5 = Num 5" "to_double (1 / 2) = Num (1 / 2)"
    by (simp_all add: double_eval)
  have p: "positions (translation_example None) = Some ?P"
    by (simp add: translation_example_def)
  have s: "sorted_wrt (<) ?P" by simp
  have i: "2 < length ?P" by simp
  have b: "Suc 2 < length ?P \<and> ?P ! 2 < 7 \<and> 7 < ?P ! Suc 2" by simp
  have g: "Suc 2 < length ?P \<and> ?P ! 2 < 7 \<and> 7 < ?P ! Suc 2 \<and> length ?P \<le> 2 ^ 53 \<and>
      dsub (Num (?P ! Suc 2)) (Num (?P ! 2)) = Num 5 \<and> (0 :: real) < 5"
    using e by (simp add: double_ops jsub_def jadd_def jneg_def is_nan_def)
  have x: "Suc 2 < length ?P \<and> ?P ! 2 < 15 / 2 \<and> 15 / 2 < ?P ! Suc 2 \<and>
      to_double (15 / 2 - ?P ! 2) = Num (15 / 2 - ?P ! 2) \<and>
      to_double (?P ! Suc 2 - ?P ! 2) = Num (?P ! Suc 2 - ?P ! 2) \<and>
      to_double ((15 / 2 - ?P ! 2) / (?P ! Suc 2 - ?P ! 2)) =
        Num ((15 / 2 - ?P ! 2) / (?P ! Suc 2 - ?P ! 2)) \<and>
      to_double (real 2 + (15 / 2 - ?P ! 2) / (?P ! Suc 2 - ?P ! 2)) =
        Num (real 2 + (15 / 2 - ?P ! 2) / (?P ! Suc 2 - ?P ! 2))"
    using e by simp
  note t = val2lin_double_index [OF p s, of 2 7 5]
    and u = val2lin_double_index [OF p s, of 2 "15 / 2" 5]
  from t i have 1: "val2lin_double (translation_example None) (?P ! 2) True = Num (real 2)"
    by blast
  from t b have 2: "val2lin_double (translation_example None) 7 True =
     dadd (Num (real 2)) (ddiv (dsub (Num 7) (Num (?P ! 2))) (dsub (Num (?P ! Suc 2)) (Num (?P ! 2))))"
    by blast
  from t g have 3: "\<exists>r. val2lin_double (translation_example None) 7 True = Num r \<and>
      real 2 \<le> r \<and> r \<le> real 2 + 1"
    by blast
  from u x have 4: "val2lin_double (translation_example None) (15 / 2) True =
     Num (real 2 + (15 / 2 - ?P ! 2) / (?P ! Suc 2 - ?P ! 2))"
    by blast
  from p s i g x 1 2 3 4 show ?thesis by blast
qed

text \<open>The roundings on the way from \<open>v = 2\<close> in \<open>[0, 1, 100000000000000000]\<close> to its index.\<close>

lemma absorbed_roundings:
  "to_double 1 = Num 1" "to_double (100000000000000000 - 1) = Num 100000000000000000"
  "to_double (1 / 100000000000000000) = Num (6490371073168535 / 2 ^ 109)"
  "to_double (1 + 6490371073168535 / 2 ^ 109) = Num 1"
  by (simp_all add: double_eval)

text \<open>
  C1 as stated fails when the last addition rounds. On \<open>[0, 1, 100000000000000000]\<close> with
  \<open>v = 2\<close> the search gives index \<open>1\<close>, the difference \<open>100000000000000000 - 1\<close> rounds to
  \<open>100000000000000000\<close>, the quotient is the double nearest to \<open>1/100000000000000000\<close>, and
  adding it to \<open>1\<close> gives \<open>1\<close>: \<open>val2lin\<close> returns the index of \<open>P[1]\<close> itself, which is
  not strictly above \<open>1\<close>.
\<close>

theorem val2lin_double_index_counterexample:
  "positions absorbed_index_example = Some [0, 1, 100000000000000000] \<and>
   sorted_wrt (<) [0, 1, 100000000000000000 :: real] \<and>
   Suc 1 < length [0, 1, 100000000000000000 :: real] \<and>
   [0, 1, 100000000000000000] ! 1 < (2 :: real) \<and>
   (2 :: real) < [0, 1, 100000000000000000] ! Suc 1 \<and>
   val2lin_double absorbed_index_example 2 True = Num 1 \<and>
   \<not> jlt (Num 1) (val2lin_double absorbed_index_example 2 True)"
proof -
  have f: "findIndexOf [0, 1, 100000000000000000] 2 True = 1"
    by (simp add: findIndexOf_def findIndexOf_eval aget_def jle_def jlt_def is_nan_def)
  have g: "getIndexInArray_double [0, 1, 100000000000000000] 2 = Num 1"
    unfolding getIndexInArray_double_def f Let_def
    using absorbed_roundings
    by (simp add: aget_def double_ops jsub_def jadd_def jneg_def jdiv_def is_nan_def)
  have "val2lin_double absorbed_index_example 2 True = Num 1"
    by (simp add: val2lin_double_def val2lin_result_double_def absorbed_index_example_def g
        aget_def jle_def jge_def jlt_def is_nan_def)
  then show ?thesis by (simp add: absorbed_index_example_def jlt_def)
qed

section \<open>Properties of the overscroll helpers\<close>






lemmas js_arith = jmin_def jmul_def jdiv_def jsub_def jadd_def jneg_def jlt_def is_nan_def

lemmas parse_defs = parseInt_def is_space_def is_digit_def digit_val_def

lemma calculateOverscroll_cached:
  "originalOrdinalRange axis = Num r \<Longrightarrow> calculateOverscroll axis (Num p) = Num (r * p)"
  by (simp add: calculateOverscroll_def pick_def defined_def js_arith)

lemma calculateOverscroll_data_range:
  "originalOrdinalRange axis = Undefined \<Longrightarrow> dataMax axis = Num M \<Longrightarrow> dataMin axis = Num m \<Longrightarrow>
   calculateOverscroll axis (Num p) = Num ((M - m) * p)"
  by (simp add: calculateOverscroll_def pick_def defined_def js_arith)

lemma convertOverscroll_percent:
  "parseInt s = Num N \<Longrightarrow> ends_with_percent s \<Longrightarrow>
   convertOverscroll axis (Some (OvString s)) = calculateOverscroll axis (Num (N / 100))"
  by (simp add: convertOverscroll_def js_arith)

lemma convertOverscroll_px:
  assumes "parseInt s = Num N" and "\<not> ends_with_percent s" and "contains_px s"
    and "len axis = Num L" and "0 < L"
  shows "convertOverscroll axis (Some (OvString s)) =
    calculateOverscroll axis (Num (min N (L * (9 / 10)) / L / (1 - min N (L * (9 / 10)) / L)))"
proof -
  have "min N (L * (9 / 10)) / L \<le> 9 / 10"
    using assms(5) by (simp add: pos_divide_le_eq min_def)
  then have "1 - min N (L * (9 / 10)) / L \<noteq> 0" by linarith
  moreover have "(if L * 9 / 10 < N then L * 9 / 10 else N) = min N (L * (9 / 10))"
    by (simp add: min_def)
  ultimately show ?thesis
    using assms by (simp add: convertOverscroll_def Let_def js_arith)
qed

text \<open>
  C6. \<open>convertOverscroll\<close> resolves a numeric spec to itself. A string ending in \<open>%\<close>
  whose leading integer is \<open>N\<close> resolves to the original ordinal range times \<open>N / 100\<close>
  when the range is cached, and to \<open>(dataMax - dataMin)\<close> times \<open>N / 100\<close> otherwise. A
  string containing \<open>px\<close> (and not ending in \<open>%\<close>) whose leading integer is \<open>N\<close>
  resolves, on an axis of positive length \<open>L\<close>, through \<open>p = min(N, 0.9 L) / L\<close> to the
  same range times \<open>p / (1 - p)\<close>. With \<open>dataMin = 0\<close>, \<open>dataMax = 100\<close> and no cached
  range, \<open>"10%"\<close> resolves to \<open>10\<close> and \<open>"50px"\<close> on an axis of length \<open>500\<close> to
  \<open>100 * (0.1 / 0.9)\<close>.
\<close>

theorem convertOverscroll_resolves:
  "convertOverscroll axis (Some (OvNumber x)) = x \<and>
   (parseInt s = Num N \<and> ends_with_percent s \<longrightarrow>
      (originalOrdinalRange axis = Num r \<longrightarrow>
         convertOverscroll axis (Some (OvString s)) = Num (r * (N / 100))) \<and>
      (originalOrdinalRange axis = Undefined \<and> dataMax axis = Num M \<and> dataMin axis = Num m \<longrightarrow>
         convertOverscroll axis (Some (OvString s)) = Num ((M - m) * (N / 100)))) \<and>
   (parseInt s = Num N \<and> \<not> ends_with_percent s \<and> contains_px s \<and> len axis = Num L \<and> 0 < L \<longrightarrow>
      (originalOrdinalRange axis = Num r \<longrightarrow>
         convertOverscroll axis (Some (OvString s)) =
           Num (r * (min N (L * (9 / 10)) / L / (1 - min N (L * (9 / 10)) / L)))) \<and>
      (originalOrdinalRange axis = Undefined \<and> dataMax axis = Num M \<and> dataMin axis = Num m \<longrightarrow>
         convertOverscroll axis (Some (OvString s)) =
           Num ((M - m) * (min N (L * (9 / 10)) / L / (1 - min N (L * (9 / 10)) / L))))) \<and>
   (originalOrdinalRange axis = Undefined \<and> dataMax axis = Num 100 \<and> dataMin axis = Num 0 \<longrightarrow>
      convertOverscroll axis (Some (OvString ''10%'')) = Num 10 \<and>
      (len axis = Num 500 \<longrightarrow>
         convertOverscroll axis (Some (OvString ''50px'')) = Num (100 * ((1 / 10) / (9 / 10)))))"
proof (intro conjI impI)
  show "convertOverscroll axis (Some (OvNumber x)) = x"
    by (simp add: convertOverscroll_def)
next
  assume "parseInt s = Num N \<and> ends_with_percent s" "originalOrdinalRange axis = Num r"
  then show "convertOverscroll axis (Some (OvString s)) = Num (r * (N / 100))"
    by (simp add: convertOverscroll_percent calculateOverscroll_cached)
next
  assume "parseInt s = Num N \<and> ends_with_percent s"
    "originalOrdinalRange axis = Undefined \<and> dataMax axis = Num M \<and> dataMin axis = Num m"
  then show "convertOverscroll axis (Some (OvString s)) = Num ((M - m) * (N / 100))"
    by (simp add: convertOverscroll_percent calculateOverscroll_data_range)
next
  assume a: "parseInt s = Num N \<and> \<not> ends_with_percent s \<and> contains_px s \<and> len axis = Num L \<and> 0 < L"
    and b: "originalOrdinalRange axis = Num r"
  from a have "convertOverscroll axis (Some (OvString s)) =
    calculateOverscroll axis (Num (min N (L * (9 / 10)) / L / (1 - min N (L * (9 / 10)) / L)))"
    by (intro convertOverscroll_px) simp_all
  with b show "convertOverscroll axis (Some (OvString s)) =
      Num (r * (min N (L * (9 / 10)) / L / (1 - min N (L * (9 / 10)) / L)))"
    by (simp only: calculateOverscroll_cached)
next
  assume a: "parseInt s = Num N \<and> \<not> ends_with_percent s \<and> contains_px s \<and> len axis = Num L \<and> 0 < L"
    and b: "originalOrdinalRange axis = Undefined \<and> dataMax axis = Num M \<and> dataMin axis = Num m"
  from a have "convertOverscroll axis (Some (OvString s)) =
    calculateOverscroll axis (Num (min N (L * (9 / 10)) / L / (1 - min N (L * (9 / 10)) / L)))"
    by (intro convertOverscroll_px) simp_all
  with b show "convertOverscroll axis (Some (OvString s)) =
      Num ((M - m) * (min N (L * (9 / 10)) / L / (1 - min N (L * (9 / 10)) / L)))"
    by (simp only: calculateOverscroll_data_range)
next
  assume a: "originalOrdinalRange axis = Undefined \<and> dataMax axis = Num 100 \<and> dataMin axis = Num 0"
  have "parseInt ''10%'' = Num 10" by (simp add: parse_defs)
  moreover have "ends_with_percent ''10%''" by (simp add: ends_with_percent_def)
  ultimately have "convertOverscroll axis (Some (OvString ''10%'')) = calculateOverscroll axis (Num (10 / 100))"
    by (rule convertOverscroll_percent)
  with a show "convertOverscroll axis (Some (OvString ''10%'')) = Num 10"
    by (simp add: calculateOverscroll_data_range)
next
  assume a: "originalOrdinalRange axis = Undefined \<and> dataMax axis = Num 100 \<and> dataMin axis = Num 0"
    and l: "len axis = Num 500"
  have "parseInt ''50px'' = Num 50" by (simp add: parse_defs)
  moreover have "\<not> ends_with_percent ''50px''" by (simp add: ends_with_percent_def)
  moreover have "contains_px ''50px''" by simp
  ultimately have "convertOverscroll axis (Some (OvString ''50px'')) =
    calculateOverscroll axis (Num (min 50 (500 * (9 / 10)) / 500 / (1 - min 50 (500 * (9 / 10)) / 500)))"
    using l by (intro convertOverscroll_px) simp_all
  with a show "convertOverscroll axis (Some (OvString ''50px'')) = Num (100 * ((1 / 10) / (9 / 10)))"
    by (simp add: calculateOverscroll_data_range)
qed

theorem convertOverscroll_resolves_witness:
  "parseInt ''10%'' = Num 10 \<and> ends_with_percent ''10%'' \<and>
   parseInt ''50px'' = Num 50 \<and> \<not> ends_with_percent ''50px'' \<and> contains_px ''50px'' \<and>
   originalOrdinalRange (overscroll_example Undefined) = Undefined \<and>
   dataMax (overscroll_example Undefined) = Num 100 \<and>
   dataMin (overscroll_example Undefined) = Num 0 \<and>
   len (overscroll_example Undefined) = Num 500 \<and> (0 :: real) < 500 \<and>
   originalOrdinalRange (overscroll_example (Num 60)) = Num 60 \<and>
   len (overscroll_example (Num 60)) = Num 500 \<and>
   convertOverscroll (overscroll_example Undefined) (Some (OvNumber (Num 7))) = Num 7 \<and>
   convertOverscroll (overscroll_example Undefined) (Some (OvString ''10%'')) = Num 10 \<and>
   convertOverscroll (overscroll_example Undefined) (Some (OvString ''50px'')) = Num (100 / 9) \<and>
   convertOverscroll (overscroll_example (Num 60)) (Some (OvString ''10%'')) = Num 6 \<and>
   convertOverscroll (overscroll_example (Num 60)) (Some (OvString ''50px'')) = Num (60 / 9)"
proof -
  have p: "parseInt ''10%'' = Num 10 \<and> ends_with_percent ''10%''"
    by (simp add: parseInt_def is_space_def is_digit_def digit_val_def ends_with_percent_def)
  have q: "parseInt ''50px'' = Num 50 \<and> \<not> ends_with_percent ''50px'' \<and> contains_px ''50px''"
    by (simp add: parseInt_def is_space_def is_digit_def digit_val_def ends_with_percent_def)
  show ?thesis
    using p q
      convertOverscroll_resolves
        [of "overscroll_example Undefined" "Num 7" "''10%''" 10 60 100 0 500]
      convertOverscroll_resolves
        [of "overscroll_example Undefined" "Num 7" "''50px''" 50 60 100 0 500]
      convertOverscroll_resolves
        [of "overscroll_example (Num 60)" "Num 7" "''10%''" 10 60 100 0 500]
      convertOverscroll_resolves
        [of "overscroll_example (Num 60)" "Num 7" "''50px''" 50 60 100 0 500]
    by (simp add: overscroll_example_def)
qed

section \<open>Properties of the tick segments\<close>

lemma getTimeTicks_loop_eval:
  "getTimeTicks_loop tt mn mx P cd e st =
     (if e < length P then
        (if e \<noteq> 0 \<and> P ! (e - 1) > mx then getTimeTicks_step tt mn mx P cd e st
         else getTimeTicks_loop tt mn mx P cd (e + 1) (getTimeTicks_step tt mn mx P cd e st))
      else st)"
  by (subst getTimeTicks_loop.simps) (simp add: Let_def)

lemma getTimeTicks_loop_stop:
  "\<not> e < length P \<Longrightarrow> getTimeTicks_loop tt mn mx P cd e st = st"
  by (subst getTimeTicks_loop.simps) simp

lemma getTimeTicks_loop_break:
  "e < length P \<Longrightarrow> outside_max mx P e \<Longrightarrow>
   getTimeTicks_loop tt mn mx P cd e st = getTimeTicks_step tt mn mx P cd e st"
  by (subst getTimeTicks_loop.simps) (auto simp: Let_def outside_max_def)

lemma getTimeTicks_loop_next:
  "e < length P \<Longrightarrow> \<not> outside_max mx P e \<Longrightarrow>
   getTimeTicks_loop tt mn mx P cd e st =
     getTimeTicks_loop tt mn mx P cd (e + 1) (getTimeTicks_step tt mn mx P cd e st)"
  by (subst getTimeTicks_loop.simps) (auto simp: Let_def outside_max_def)

lemma getTimeTicks_step_eq:
  "getTimeTicks_step tt mn mx P cd e st =
     (if segment_end mx P cd e
      then close_segment tt P e (st\<lparr>start := (if P ! e < mn then e else start st)\<rparr>)
      else st\<lparr>start := (if P ! e < mn then e else start st)\<rparr>)"
  by (simp add: getTimeTicks_step_def segment_end_def outside_max_def Let_def)

lemma close_segment_start: "start (close_segment tt P e st) = e + 1"
  by (simp add: close_segment_def Let_def)

lemma segment_start_snoc:
  "s \<le> e \<Longrightarrow> (if P ! e < mn then e else foldl (\<lambda>s' j. if P ! j < mn then j else s') s [s..<e]) =
     segment_start mn P s e"
  by (simp add: segment_start_def)

lemma segment_start_same: "\<forall>p\<in>set P. mn \<le> p \<Longrightarrow> e < length P \<Longrightarrow> segment_start mn P s e = s"
proof -
  assume a: "\<forall>p\<in>set P. mn \<le> p" "e < length P"
  have "foldl (\<lambda>s' j. if P ! j < mn then j else s') s js = s" if "\<forall>j\<in>set js. j < length P" for js
    using that
  proof (induction js rule: rev_induct)
    case Nil
    then show ?case by simp
  next
    case (snoc j js)
    then have "mn \<le> P ! j" using a(1) by simp
    with snoc show ?case by simp
  qed
  from this[of "[s..<Suc e]"] a(2) show ?thesis
    by (auto simp: segment_start_def simp del: upt_Suc)
qed

lemma all_from_Suc:
  "\<not> Q e \<Longrightarrow> (\<forall>j. e \<le> j \<and> j < i \<longrightarrow> \<not> Q j) = (\<forall>j. Suc e \<le> j \<and> j < i \<longrightarrow> \<not> Q j)"
  by (metis Suc_leD Suc_leI le_neq_implies_less)

text \<open>
  The scan from index \<open>e\<close> on, in a state whose range began at \<open>s0\<close>: it closes the
  ranges that end at the indices it reaches and that satisfy \<open>segment_end\<close>, one after
  the other.
\<close>

lemma getTimeTicks_loop_fold:
  assumes "e \<le> length P" and "s0 \<le> e"
    and "start st = foldl (\<lambda>s' j. if P ! j < mn then j else s') s0 [s0..<e]"
    and "e = length P \<longrightarrow> s0 = e"
  shows "getTimeTicks_loop tt mn mx P cd e st =
     foldl (\<lambda>st' x. close_segment tt P x (st'\<lparr>start := segment_start mn P (start st') x\<rparr>))
       (st\<lparr>start := s0\<rparr>)
       [i \<leftarrow> [e..<length P].
          segment_end mx P cd i \<and> (\<forall>j. e \<le> j \<and> j < i \<longrightarrow> \<not> outside_max mx P j)]"
  using assms
proof (induction tt mn mx P cd e st arbitrary: s0 rule: getTimeTicks_loop.induct)
  case (1 tt mn mx P cd e st)
  define g where "g = (\<lambda>s' j. if P ! j < mn then j else s')"
  define F where
    "F = (\<lambda>st' x. close_segment tt P x (st'\<lparr>start := segment_start mn P (start st') x\<rparr>))"
  define Q where
    "Q = (\<lambda>k i. segment_end mx P cd i \<and> (\<forall>j. k \<le> j \<and> j < i \<longrightarrow> \<not> outside_max mx P j))"
  note le = \<open>e \<le> length P\<close> and s0 = \<open>s0 \<le> e\<close>
  have st: "start st = foldl g s0 [s0..<e]" using "1.prems"(3) by (simp add: g_def)
  note last = \<open>e = length P \<longrightarrow> s0 = e\<close>
  have goal: "getTimeTicks_loop tt mn mx P cd e st = foldl F (st\<lparr>start := s0\<rparr>) (filter (Q e) [e..<length P])"
  proof (cases "e < length P")
    case False
    with le last have "s0 = e" by simp
    with st have "start st = s0" by simp
    then have "st\<lparr>start := s0\<rparr> = st" by simp
    with False show ?thesis by (simp add: getTimeTicks_loop_stop)
  next
    case True
    let ?st1 = "st\<lparr>start := segment_start mn P s0 e\<rparr>"
    have g1: "(if P ! e < mn then e else start st) = segment_start mn P s0 e"
      by (simp only: "1.prems"(3) segment_start_snoc[OF s0])
    have step: "getTimeTicks_step tt mn mx P cd e st =
        (if segment_end mx P cd e then close_segment tt P e ?st1 else ?st1)"
      by (simp only: getTimeTicks_step_eq g1)
    have upt: "[e..<length P] = e # [Suc e..<length P]" using True by (rule upt_conv_Cons)
    have Qe: "Q e e = segment_end mx P cd e" by (auto simp: Q_def)
    have Fe: "F (st\<lparr>start := s0\<rparr>) e = close_segment tt P e ?st1" by (simp add: F_def)
    show ?thesis
    proof (cases "outside_max mx P e")
      case om: True
      then have cl: "segment_end mx P cd e" by (simp add: segment_end_def)
      have "\<not> Q e i" if "i \<in> set [Suc e..<length P]" for i
        using that om by (auto simp: Q_def)
      then have rest: "filter (Q e) [Suc e..<length P] = []"
        by (simp only: filter_empty_conv) blast
      show ?thesis
        unfolding getTimeTicks_loop_break[OF True om] upt
        using cl rest Qe Fe step by simp
    next
      case nom: False
      have "Q e = Q (Suc e)"
        unfolding Q_def by (simp only: all_from_Suc[of "outside_max mx P", OF nom])
      then have rest: "filter (Q e) [Suc e..<length P] = filter (Q (Suc e)) [Suc e..<length P]"
        by simp
      have nb: "\<not> (e \<noteq> 0 \<and> mx < P ! (e - 1))" using nom by (simp add: outside_max_def)
      show ?thesis
      proof (cases "segment_end mx P cd e")
        case cl: True
        let ?st' = "close_segment tt P e ?st1"
        have st': "getTimeTicks_step tt mn mx P cd e st = ?st'" using step cl by simp
        have a: "e + 1 \<le> length P" using True by simp
        have b: "start ?st' = foldl (\<lambda>s' j. if P ! j < mn then j else s') (e + 1) [e + 1..<e + 1]"
          by (simp add: close_segment_start)
        have "getTimeTicks_loop tt mn mx P cd (e + 1) ?st' =
            foldl F (?st'\<lparr>start := e + 1\<rparr>) (filter (Q (e + 1)) [e + 1..<length P])"
          using "1.IH"[OF True st'[symmetric] nb a _ b] by (simp add: F_def Q_def)
        moreover have "?st'\<lparr>start := e + 1\<rparr> = ?st'"
          using close_segment_start[of tt P e ?st1] by simp
        ultimately show ?thesis
          unfolding getTimeTicks_loop_next[OF True nom] upt st'
          using cl rest Qe Fe by simp
      next
        case ncl: False
        then have "e \<noteq> length P - 1" by (auto simp: segment_end_def)
        with True have a: "e + 1 \<le> length P" "e + 1 = length P \<longrightarrow> s0 = e + 1" by linarith+
        have st': "getTimeTicks_step tt mn mx P cd e st = ?st1" using step ncl by simp
        have "[s0..<e + 1] = [s0..<e] @ [e]" using s0 by simp
        then have b: "start ?st1 = foldl (\<lambda>s' j. if P ! j < mn then j else s') s0 [s0..<e + 1]"
          by (simp add: segment_start_def)
        have c: "s0 \<le> e + 1" using s0 by simp
        have "getTimeTicks_loop tt mn mx P cd (e + 1) ?st1 =
            foldl F (?st1\<lparr>start := s0\<rparr>) (filter (Q (e + 1)) [e + 1..<length P])"
          using "1.IH"[OF True st'[symmetric] nb a(1) c b a(2)] by (simp add: F_def Q_def)
        moreover have "?st1\<lparr>start := s0\<rparr> = st\<lparr>start := s0\<rparr>" by simp
        ultimately show ?thesis
          unfolding getTimeTicks_loop_next[OF True nom] upt st'
          using ncl rest Qe by simp
      qed
    qed
  qed
  then show ?case by (simp only: F_def Q_def)
qed

lemma segment_ends_reached:
  "segment_ends mx P cd =
     [i \<leftarrow> [0..<length P]. segment_end mx P cd i \<and> (\<forall>j. j < i \<longrightarrow> \<not> outside_max mx P j)]"
proof -
  have "list_all (\<lambda>j. \<not> outside_max mx P j) [0..<i] = (\<forall>j. j < i \<longrightarrow> \<not> outside_max mx P j)"
    for i
    by (auto simp: list_all_iff)
  then show ?thesis by (simp only: segment_ends_def)
qed

lemma getTimeTicks_fold:
  assumes "ordinal' \<or> breaks'" and "3 \<le> length P"
  shows "getTimeTicks ordinal' breaks' tt (Some mn) mx P cd =
     Segmented
       (foldl (\<lambda>st x. close_segment tt P x (st\<lparr>start := segment_start mn P (start st) x\<rparr>))
          initial_scan (segment_ends mx P cd))"
proof -
  have s: "start initial_scan = foldl (\<lambda>s' j. if P ! j < mn then j else s') 0 [0..<0]"
    by (simp add: initial_scan_def)
  have l: "0 = length P \<longrightarrow> (0 :: nat) = 0" by simp
  have i: "initial_scan\<lparr>start := 0\<rparr> = initial_scan" by (simp add: initial_scan_def)
  have "getTimeTicks_loop tt mn mx P cd 0 initial_scan =
      foldl (\<lambda>st x. close_segment tt P x (st\<lparr>start := segment_start mn P (start st) x\<rparr>))
        (initial_scan\<lparr>start := 0\<rparr>) (segment_ends mx P cd)"
    using getTimeTicks_loop_fold[OF _ _ s l, of tt mx cd] by (simp add: segment_ends_reached)
  with assms i show ?thesis by (auto simp: getTimeTicks_def)
qed

lemma small_doubles:
  "to_double 1 = Num 1" "to_double 5 = Num 5" "to_double 7 = Num 7"
  by (simp_all add: double_eval)

lemma segment_ends_example:
  assumes "12 \<le> mx"
  shows "segment_ends mx [1, 2, 3, 10, 11, 12] 1 = [2, 5]"
proof -
  let ?L = "[1, 2, 3, 10, 11, 12] :: real list"
  let ?pred = "\<lambda>i. segment_end mx ?L 1 i \<and> (\<forall>j. j < i \<longrightarrow> \<not> outside_max mx ?L j)"
  have no: "\<not> outside_max mx ?L j" if "j \<le> 6" for j
  proof -
    from that have "j \<in> {0, 1, 2, 3, 4, 5, 6}" by auto
    then show ?thesis using assms by (elim insertE) (simp_all add: outside_max_def)
  qed
  have pred: "?pred i = (i = 2 \<or> i = 5)" if "i \<in> set [0..<6]" for i
  proof -
    from that have i: "i \<in> {0, 1, 2, 3, 4, 5}" by auto
    then have "\<forall>j. j < i \<longrightarrow> \<not> outside_max mx ?L j" using no by auto
    moreover have "\<not> outside_max mx ?L i" using i no by auto
    moreover have "(i = length ?L - 1 \<or>
        jgt (dsub (Num (?L ! (i + 1))) (Num (?L ! i))) (dmul (Num 1) (Num 5))) = (i = 2 \<or> i = 5)"
      using i small_doubles
      by (elim insertE) (simp_all add: double_ops jsub_def jadd_def jneg_def jmul_def jgt_def
          jlt_def is_nan_def)
    ultimately show ?thesis unfolding segment_end_def by blast
  qed
  have "length ?L = 6" by simp
  then have "filter ?pred [0..<length ?L] = filter ?pred [0..<6]" by (simp only:)
  also have "\<dots> = filter (\<lambda>i. i = 2 \<or> i = 5) [0..<6]"
    using pred by (intro filter_cong[OF refl])
  also have "[0..<6] = [0, 1, 2, 3, 4, 5]" by (simp add: upt_rec)
  finally show ?thesis unfolding segment_ends_reached by simp
qed

text \<open>
  C5 (amended). When the \<open>ordinal\<close> or the \<open>breaks\<close> option is on, \<open>min\<close> is defined and
  there are at least three positions, \<open>getTimeTicks\<close> scans the positions once and closes
  a range exactly at the indices it reaches where the gap to the next position exceeds
  five times \<open>closestDistance\<close>, where the position before exceeds \<open>max\<close> (the scan stops
  there), or where the array ends; a closed range forms a segment, with an entry in
  \<open>segmentStarts\<close> and its ticks appended to \<open>groupPositions\<close>, only if its last
  position is greater than the last tick so far (line 249). For the positions
  \<open>[1,2,3,10,11,12]\<close> with \<open>closestDistance = 1\<close> and \<open>min\<close>, \<open>max\<close> covering them, the
  ranges \<open>[1,2,3]\<close> and \<open>[10,11,12]\<close> are closed, at the indices \<open>2\<close> and \<open>5\<close>; the first
  forms a segment, and the second forms one exactly when \<open>12\<close> is greater than the last
  tick of the first. Without the options, without \<open>min\<close> or with fewer than three
  positions nothing is scanned.
\<close>

theorem getTimeTicks_splits_at_gaps:
  "((ordinal' \<or> breaks') \<and> 3 \<le> length P \<longrightarrow>
      getTimeTicks ordinal' breaks' tt (Some mn) mx P cd =
        Segmented
          (foldl (\<lambda>st e. close_segment tt P e (st\<lparr>start := segment_start mn P (start st) e\<rparr>))
             initial_scan (segment_ends mx P cd))) \<and>
   ((ordinal' \<or> breaks') \<and> mn \<le> 1 \<and> 12 \<le> mx \<longrightarrow>
      segment_ends mx [1, 2, 3, 10, 11, 12] 1 = [2, 5] \<and>
      (let t1 = dropWhile (\<lambda>t. t \<le> - MAX_VALUE) (tt 1 3);
           l1 = (if t1 \<noteq> [] then last t1 else - MAX_VALUE);
           t2 = dropWhile (\<lambda>t. t \<le> l1) (tt 10 12)
       in getTimeTicks ordinal' breaks' tt (Some mn) mx [1, 2, 3, 10, 11, 12] 1 =
            Segmented
              (if l1 < 12
               then \<lparr>start = 6, segmentPositions = Some t2, segmentStarts = [0, length t1],
                      groupPositions = t1 @ t2,
                      lastGroupPosition = (if t2 \<noteq> [] then last t2 else l1)\<rparr>
               else \<lparr>start = 6, segmentPositions = Some t1, segmentStarts = [0],
                      groupPositions = t1, lastGroupPosition = l1\<rparr>))) \<and>
   ((\<not> ordinal' \<and> \<not> breaks') \<or> length P < 3 \<or> mn' = None \<longrightarrow>
      getTimeTicks ordinal' breaks' tt mn' mx P cd = Plain)"
proof (intro conjI impI)
  assume "(ordinal' \<or> breaks') \<and> 3 \<le> length P"
  then show "getTimeTicks ordinal' breaks' tt (Some mn) mx P cd =
        Segmented
          (foldl (\<lambda>st e. close_segment tt P e (st\<lparr>start := segment_start mn P (start st) e\<rparr>))
             initial_scan (segment_ends mx P cd))"
    by (intro getTimeTicks_fold) simp_all
next
  assume a: "(ordinal' \<or> breaks') \<and> mn \<le> 1 \<and> 12 \<le> mx"
  then show "segment_ends mx [1, 2, 3, 10, 11, 12] 1 = [2, 5]"
    by (intro segment_ends_example) simp
next
  assume a: "(ordinal' \<or> breaks') \<and> mn \<le> 1 \<and> 12 \<le> mx"
  let ?L = "[1, 2, 3, 10, 11, 12] :: real list"
  from a have ends: "segment_ends mx ?L 1 = [2, 5]" by (intro segment_ends_example) simp
  from a have low: "\<forall>p\<in>set ?L. mn \<le> p" by simp
  have s: "segment_start mn ?L s e = s" if "e < 6" for s e
    using segment_start_same[OF low, of e s] that by simp
  from a have "getTimeTicks ordinal' breaks' tt (Some mn) mx ?L 1 =
      Segmented
        (foldl (\<lambda>st e. close_segment tt ?L e (st\<lparr>start := segment_start mn ?L (start st) e\<rparr>))
           initial_scan (segment_ends mx ?L 1))"
    by (intro getTimeTicks_fold) simp_all
  also have "\<dots> = Segmented (close_segment tt ?L 5 (close_segment tt ?L 2 initial_scan))"
    unfolding ends by (simp add: s)
  finally have r: "getTimeTicks ordinal' breaks' tt (Some mn) mx ?L 1 =
      Segmented (close_segment tt ?L 5 (close_segment tt ?L 2 initial_scan))" .
  show "let t1 = dropWhile (\<lambda>t. t \<le> - MAX_VALUE) (tt 1 3);
           l1 = (if t1 \<noteq> [] then last t1 else - MAX_VALUE);
           t2 = dropWhile (\<lambda>t. t \<le> l1) (tt 10 12)
       in getTimeTicks ordinal' breaks' tt (Some mn) mx [1, 2, 3, 10, 11, 12] 1 =
            Segmented
              (if l1 < 12
               then \<lparr>start = 6, segmentPositions = Some t2, segmentStarts = [0, length t1],
                      groupPositions = t1 @ t2,
                      lastGroupPosition = (if t2 \<noteq> [] then last t2 else l1)\<rparr>
               else \<lparr>start = 6, segmentPositions = Some t1, segmentStarts = [0],
                      groupPositions = t1, lastGroupPosition = l1\<rparr>)"
    unfolding r using MAX_VALUE_pos
    by (simp add: close_segment_def initial_scan_def Let_def)
next
  assume "(\<not> ordinal' \<and> \<not> breaks') \<or> length P < 3 \<or> mn' = None"
  then show "getTimeTicks ordinal' breaks' tt mn' mx P cd = Plain"
    by (auto simp: getTimeTicks_def split: option.splits)
qed

text \<open>
  With ticks at the two ends of each range, \<open>[1,2,3,10,11,12]\<close> gives the two segments
  \<open>[1,3]\<close> and \<open>[10,12]\<close>, the second starting at offset \<open>2\<close>; \<open>[1,10]\<close> is not scanned.
\<close>

theorem getTimeTicks_splits_at_gaps_witness:
  "(True \<or> False) \<and> 3 \<le> length [1, 2, 3, 10, 11, 12 :: real] \<and> (0 :: real) \<le> 1 \<and>
   (12 :: real) \<le> 20 \<and>
   segment_ends 20 [1, 2, 3, 10, 11, 12] 1 = [2, 5] \<and>
   getTimeTicks True False ticks_at_ends (Some 0) 20 [1, 2, 3, 10, 11, 12] 1 =
     Segmented \<lparr>start = 6, segmentPositions = Some [10, 12], segmentStarts = [0, 2],
       groupPositions = [1, 3, 10, 12], lastGroupPosition = 12\<rparr> \<and>
   length [1, 10 :: real] < 3 \<and>
   getTimeTicks True False ticks_at_ends (Some 0) 20 [1, 10] 1 = Plain"
  using getTimeTicks_splits_at_gaps
      [of True False "[1, 2, 3, 10, 11, 12]" ticks_at_ends 0 20 1 "Some 0"]
    getTimeTicks_splits_at_gaps [of True False "[1, 10]" ticks_at_ends 0 20 1 "Some 0"]
  by (simp add: ticks_at_ends_def MAX_VALUE_def Let_def)

text \<open>
  C5 as stated fails when the ticks of the first range reach past the second: with a
  tick at \<open>0\<close> and at \<open>20\<close> for each range (an interval of \<open>20\<close>), the last tick \<open>20\<close> of
  the first segment is not below the position \<open>12\<close>, so the range \<open>[10,11,12]\<close> forms no
  segment and exactly one segment is produced.
\<close>

theorem getTimeTicks_splits_at_gaps_counterexample:
  "(0 :: real) \<le> 1 \<and> (12 :: real) \<le> 20 \<and>
   getTimeTicks True False ticks_0_20 (Some 0) 20 [1, 2, 3, 10, 11, 12] 1 =
     Segmented \<lparr>start = 6, segmentPositions = Some [0, 20], segmentStarts = [0],
       groupPositions = [0, 20], lastGroupPosition = 20\<rparr>"
proof -
  have "to_double 1 = Num 1" "to_double 5 = Num 5" "to_double 7 = Num 7"
    by (simp_all add: double_eval)
  then show ?thesis
    by (simp add: getTimeTicks_def getTimeTicks_loop_eval getTimeTicks_step_def close_segment_def
        initial_scan_def ticks_0_20_def MAX_VALUE_def Let_def double_ops jsub_def jadd_def
        jneg_def jmul_def jgt_def jlt_def is_nan_def)
qed

section \<open>Properties of the pan handler\<close>




lemma pan_finish_panning: "panning (pan_finish b ov chart) = panning chart"
  by (simp add: pan_finish_def)





end
